theory Spec2Isabelle
  imports Main
begin

section \<open>Machine integers, panics and the random source\<close>

text \<open>
  Go's \<^verbatim>\<open>int\<close> is a 64-bit two's complement integer on the platforms the program
  targets. Values are modelled as \<^typ>\<open>int\<close>, and every addition and multiplication
  of the source that can leave the 64-bit range is wrapped with \<open>wrap64\<close>.
  Go's \<^verbatim>\<open>/\<close> truncates towards zero (\<open>quo\<close>).
\<close>

definition wrap64 :: "int \<Rightarrow> int" where
  "wrap64 i = (i + 2 ^ 63) mod 2 ^ 64 - 2 ^ 63"

definition quo :: "int \<Rightarrow> int \<Rightarrow> int" where
  "quo a b = sgn a * sgn b * (\<bar>a\<bar> div \<bar>b\<bar>)"

text \<open>
  The run-time panics the program can raise: an index outside a slice, a length out of
  range given to \<^verbatim>\<open>make\<close>, and \<^verbatim>\<open>rand.Intn\<close> called with an argument that is not
  positive.
\<close>

datatype error = IndexOutOfRange | MakeSliceLen | IntnArgument

text \<open>
  The global pseudo-random source is the infinite sequence of raw values it is going to
  produce, the value at 0 being the next one. \<^verbatim>\<open>rand.Intn(n)\<close> panics when \<open>n \<le> 0\<close> and otherwise consumes one raw
  value and returns a number in \<open>[0, n)\<close>; every number of that range is returned for
  some raw value.
\<close>

type_synonym rand_src = "nat \<Rightarrow> nat"

definition Intn :: "int \<Rightarrow> rand_src \<Rightarrow> error + (int \<times> rand_src)" where
  "Intn n rs =
     (if n \<le> 0 then Inl IntnArgument
      else Inr (int (rs 0 mod nat n), \<lambda>i. rs (Suc i)))"

text \<open>The source whose raw values are all \<open>k\<close>.\<close>

definition always :: "nat \<Rightarrow> rand_src" where
  "always k = (\<lambda>i. k)"

section \<open>Points, directions and rectangles\<close>

record point =
  X :: int
  Y :: int

definition Pt :: "int \<Rightarrow> int \<Rightarrow> point" where
  "Pt x y = \<lparr>X = x, Y = y\<rparr>"

definition Add :: "point \<Rightarrow> point \<Rightarrow> point" where
  "Add p q = Pt (wrap64 (X p + X q)) (wrap64 (Y p + Y q))"

definition Mul :: "point \<Rightarrow> int \<Rightarrow> point" where
  "Mul p k = Pt (wrap64 (X p * k)) (wrap64 (Y p * k))"

text \<open>
  A \<^verbatim>\<open>direction\<close> wraps a pointer to a point that is never written after its
  creation, so it is modelled by the point itself.
\<close>

type_synonym direction = point

definition D :: "int \<Rightarrow> int \<Rightarrow> direction" where
  "D x y = Pt x y"

definition AddDir :: "point \<Rightarrow> direction \<Rightarrow> point" where
  "AddDir p d = Add p d"

definition Reverse :: "direction \<Rightarrow> direction" where
  "Reverse d = Mul d (- 1)"

definition Dir_Up :: direction where "Dir_Up = D 0 (- 1)"
definition Dir_Right :: direction where "Dir_Right = D 1 0"
definition Dir_Down :: direction where "Dir_Down = D 0 1"
definition Dir_Left :: direction where "Dir_Left = D (- 1) 0"

definition Dirs :: "direction list" where
  "Dirs = [Dir_Up, Dir_Right, Dir_Down, Dir_Left]"

text \<open>
  Rectangles are those of Go's \<^verbatim>\<open>image\<close> package: \<open>Rect\<close> orders the corners,
  \<open>Max_r\<close> is exclusive, an empty rectangle is inside every rectangle and overlaps
  none.
\<close>

record rectangle =
  Min_r :: point
  Max_r :: point

definition Rect :: "int \<Rightarrow> int \<Rightarrow> int \<Rightarrow> int \<Rightarrow> rectangle" where
  "Rect x0 y0 x1 y1 =
     \<lparr>Min_r = Pt (if x0 > x1 then x1 else x0) (if y0 > y1 then y1 else y0),
      Max_r = Pt (if x0 > x1 then x0 else x1) (if y0 > y1 then y0 else y1)\<rparr>"

definition Empty :: "rectangle \<Rightarrow> bool" where
  "Empty r \<longleftrightarrow> X (Min_r r) \<ge> X (Max_r r) \<or> Y (Min_r r) \<ge> Y (Max_r r)"

definition pt_In :: "point \<Rightarrow> rectangle \<Rightarrow> bool" where
  "pt_In p r \<longleftrightarrow>
     X (Min_r r) \<le> X p \<and> X p < X (Max_r r) \<and> Y (Min_r r) \<le> Y p \<and> Y p < Y (Max_r r)"

definition rect_In :: "rectangle \<Rightarrow> rectangle \<Rightarrow> bool" where
  "rect_In r s \<longleftrightarrow>
     (if Empty r then True
      else X (Min_r s) \<le> X (Min_r r) \<and> X (Max_r r) \<le> X (Max_r s) \<and>
           Y (Min_r s) \<le> Y (Min_r r) \<and> Y (Max_r r) \<le> Y (Max_r s))"

definition Overlaps :: "rectangle \<Rightarrow> rectangle \<Rightarrow> bool" where
  "Overlaps r s \<longleftrightarrow>
     \<not> Empty r \<and> \<not> Empty s \<and>
     X (Min_r r) < X (Max_r s) \<and> X (Min_r s) < X (Max_r r) \<and>
     Y (Min_r r) < Y (Max_r s) \<and> Y (Min_r s) < Y (Max_r r)"

section \<open>The grid\<close>

datatype material = Rock | Carved

type_synonym region = int

text \<open>
  The field \<^verbatim>\<open>g\<close> of the source, the slice of materials, is called \<open>g_arr\<close>.
\<close>

record grid =
  g_arr :: "material list"
  Size :: point
  regions :: "region list"
  regCount :: region

text \<open>
  \<^verbatim>\<open>make\<close> panics when the length is negative and when the slice, of 8-byte
  entries, would be larger than the run-time system's allocation limit, which is
  \<open>2 ^ 48\<close> bytes on the 64-bit platforms.
\<close>

definition maxAlloc :: int where
  "maxAlloc = 2 ^ 48"

definition newGrid :: "point \<Rightarrow> error + grid" where
  "newGrid sz =
     (let n = wrap64 (X sz * Y sz) in
      if n < 0 \<or> maxAlloc < n * 8 then Inl MakeSliceLen
      else Inr \<lparr>g_arr = replicate (nat n) Rock, Size = sz,
                regions = replicate (nat n) 0, regCount = 0\<rparr>)"

function Regions_loop :: "region \<Rightarrow> region \<Rightarrow> region list \<Rightarrow> region list" where
  "Regions_loop i n regs = (if i < n then Regions_loop (i + 1) n (regs @ [i]) else regs)"
  by pat_completeness auto
termination
  by (relation "measure (\<lambda>(i, n, regs). nat (n - i))") auto

declare Regions_loop.simps [simp del]

definition Regions :: "grid \<Rightarrow> region list" where
  "Regions g = Regions_loop 0 (regCount g) []"

definition NewRegion :: "grid \<Rightarrow> region \<times> grid" where
  "NewRegion g =
     (let g' = g\<lparr>regCount := wrap64 (regCount g + 1)\<rparr> in (regCount g', g'))"

definition Bounds :: "grid \<Rightarrow> rectangle" where
  "Bounds g = Rect 0 0 (X (Size g)) (Y (Size g))"

text \<open>The linear index \<^verbatim>\<open>p.Y*g.Size.X+p.X\<close>, in 64-bit arithmetic.\<close>

definition index :: "grid \<Rightarrow> point \<Rightarrow> int" where
  "index g p = wrap64 (wrap64 (Y p * X (Size g)) + X p)"

definition At :: "grid \<Rightarrow> point \<Rightarrow> error + material" where
  "At g p =
     (let i = index g p in
      if 0 \<le> i \<and> i < int (length (g_arr g)) then Inr (g_arr g ! nat i)
      else Inl IndexOutOfRange)"

definition RegionAt :: "grid \<Rightarrow> point \<Rightarrow> error + region" where
  "RegionAt g p =
     (let i = index g p in
      if 0 \<le> i \<and> i < int (length (regions g)) then Inr (regions g ! nat i)
      else Inl IndexOutOfRange)"

definition SetMaterial :: "grid \<Rightarrow> point \<Rightarrow> material \<Rightarrow> error + grid" where
  "SetMaterial g p m =
     (let i = index g p in
      if 0 \<le> i \<and> i < int (length (g_arr g)) then Inr (g\<lparr>g_arr := (g_arr g)[nat i := m]\<rparr>)
      else Inl IndexOutOfRange)"

definition SetRegion :: "grid \<Rightarrow> point \<Rightarrow> region \<Rightarrow> error + grid" where
  "SetRegion g p r =
     (let i = index g p in
      if 0 \<le> i \<and> i < int (length (regions g)) then Inr (g\<lparr>regions := (regions g)[nat i := r]\<rparr>)
      else Inl IndexOutOfRange)"

text \<open>
  A grid is well formed when its size is not negative and both slices hold one entry per
  cell, as \<open>newGrid\<close> builds them. A slice of 8-byte entries in a 64-bit address
  space has fewer than \<open>2 ^ 61\<close> entries.
\<close>

definition wf_grid :: "grid \<Rightarrow> bool" where
  "wf_grid g \<longleftrightarrow>
     0 \<le> X (Size g) \<and> 0 \<le> Y (Size g) \<and>
     int (length (g_arr g)) = X (Size g) * Y (Size g) \<and>
     length (regions g) = length (g_arr g) \<and>
     length (g_arr g) < 2 ^ 61"


text \<open>Sequencing of calls that can panic: the first panic ends the computation.\<close>

definition and_then :: "'e + 'a \<Rightarrow> ('a \<Rightarrow> 'e + 'b) \<Rightarrow> 'e + 'b" where
  "and_then m f = (case m of Inl e \<Rightarrow> Inl e | Inr v \<Rightarrow> f v)"

section \<open>Room placement\<close>

definition IMG_SIZE :: int where
  "IMG_SIZE = 61"

definition ROOM_TRIES :: nat where
  "ROOM_TRIES = 10"

record RoomParams =
  Min_p :: point
  Max_p :: point

definition ROOM_PARAMS :: RoomParams where
  "ROOM_PARAMS = \<lparr>Min_p = Pt 5 5, Max_p = Pt 15 15\<rparr>"

text \<open>
  The four draws of one try of \<^verbatim>\<open>createRooms\<close>, in the order of the source:
  \<open>y\<close>, \<open>x\<close>, \<open>height\<close>, \<open>width\<close>. The result is \<open>(x, y, width, height)\<close>.
\<close>

definition drawRoom ::
  "rectangle \<Rightarrow> RoomParams \<Rightarrow> rand_src \<Rightarrow> error + ((int \<times> int \<times> int \<times> int) \<times> rand_src)" where
  "drawRoom clip rp rs =
     and_then (Intn (quo (X (Max_r clip)) 2) rs) (\<lambda>(ry, rs1).
     and_then (Intn (quo (Y (Max_r clip)) 2) rs1) (\<lambda>(rx, rs2).
     and_then (Intn (quo (Y (Max_p rp)) 2) rs2) (\<lambda>(rh, rs3).
     and_then (Intn (quo (X (Max_p rp)) 2) rs3) (\<lambda>(rw, rs4).
       let y = wrap64 (wrap64 (ry * 2) + 1);
           x = wrap64 (wrap64 (rx * 2) + 1);
           height = wrap64 (wrap64 (rh * 2) + Y (Min_p rp));
           width = wrap64 (wrap64 (rw * 2) + X (Min_p rp))
       in Inr ((x, y, width, height), rs4)))))"

text \<open>
  The loop of \<^verbatim>\<open>createRooms\<close>, by the number of tries that remain. Both
  \<^verbatim>\<open>continue\<close> statements go on with the list of rooms unchanged.
\<close>

fun tryRooms ::
  "nat \<Rightarrow> rectangle \<Rightarrow> RoomParams \<Rightarrow> rectangle list \<Rightarrow> rand_src
     \<Rightarrow> error + (rectangle list \<times> rand_src)" where
  "tryRooms 0 clip rp rooms rs = Inr (rooms, rs)"
| "tryRooms (Suc n) clip rp rooms rs =
     (case drawRoom clip rp rs of
        Inl e \<Rightarrow> Inl e
      | Inr ((x, y, width, height), rs') \<Rightarrow>
          (let room = Rect x y (wrap64 (x + width)) (wrap64 (y + height)) in
           if \<not> rect_In room clip then tryRooms n clip rp rooms rs'
           else if list_ex (\<lambda>old. Overlaps room old) rooms then tryRooms n clip rp rooms rs'
           else tryRooms n clip rp (rooms @ [room]) rs'))"

text \<open>
  \<^verbatim>\<open>make([]image.Rectangle, 1)\<close> is a slice holding one zero rectangle.
\<close>

definition createRooms ::
  "rectangle \<Rightarrow> RoomParams \<Rightarrow> rand_src \<Rightarrow> error + (rectangle list \<times> rand_src)" where
  "createRooms clip rp rs =
     tryRooms ROOM_TRIES clip rp [\<lparr>Min_r = Pt 0 0, Max_r = Pt 0 0\<rparr>] rs"

section \<open>Growing the maze\<close>

definition canCarve :: "grid \<Rightarrow> point \<Rightarrow> direction \<Rightarrow> error + bool" where
  "canCarve g from_p dir =
     (let beyond = AddDir (AddDir (AddDir from_p dir) dir) dir;
          next = AddDir (AddDir from_p dir) dir
      in if pt_In beyond (Bounds g) then and_then (At g next) (\<lambda>m. Inr (m = Rock))
         else Inr False)"

text \<open>The loop over \<open>Dirs\<close> that collects the carvable directions of a cell.\<close>

fun unmade_dirs ::
  "grid \<Rightarrow> point \<Rightarrow> direction list \<Rightarrow> direction list \<Rightarrow> error + direction list" where
  "unmade_dirs g cell [] unmade = Inr unmade"
| "unmade_dirs g cell (d # ds) unmade =
     (case canCarve g cell d of
        Inl e \<Rightarrow> Inl e
      | Inr c \<Rightarrow> unmade_dirs g cell ds (if c then unmade @ [d] else unmade))"

text \<open>
  The state of the loop of \<^verbatim>\<open>grow\<close>: the grid, the active cells and the random
  source. The counter \<^verbatim>\<open>i\<close> of the source is never read and is left out.
\<close>

record grow_state =
  grid_of :: grid
  cells :: "point list"
  rand :: rand_src

text \<open>One iteration of the loop, entered with a cell in \<open>cells\<close>.\<close>

definition grow_iter :: "region \<Rightarrow> grow_state \<Rightarrow> error + grow_state" where
  "grow_iter reg st =
     and_then (Intn (int (length (cells st))) (rand st)) (\<lambda>(k, rs1).
     let cell = cells st ! nat k in
     and_then (unmade_dirs (grid_of st) cell Dirs []) (\<lambda>unmade.
       if length unmade > 0 then
         and_then (Intn (int (length unmade)) rs1) (\<lambda>(j, rs2).
         let dir = unmade ! nat j in
         and_then (SetMaterial (grid_of st) (AddDir cell dir) Carved) (\<lambda>g1.
         and_then (SetRegion g1 (AddDir cell dir) reg) (\<lambda>g2.
         and_then (SetMaterial g2 (AddDir (AddDir cell dir) dir) Carved) (\<lambda>g3.
         and_then (SetRegion g3 (AddDir (AddDir cell dir) dir) reg) (\<lambda>g4.
           Inr \<lparr>grid_of = g4, cells = cells st @ [AddDir (AddDir cell dir) dir],
                rand = rs2\<rparr>)))))
       else Inr \<lparr>grid_of = grid_of st, cells = tl (cells st), rand = rs1\<rparr>))"

text \<open>The number of Rock entries of the grid.\<close>

definition rocks :: "grid \<Rightarrow> nat" where
  "rocks g = length (filter (\<lambda>m. m = Rock) (g_arr g))"


section \<open>Facts about panics, indices and one iteration of the growth loop\<close>

lemma and_then_Inr_iff [simp]:
  "and_then m f = Inr v \<longleftrightarrow> (\<exists>u. m = Inr u \<and> f u = Inr v)"
  by (cases m) (simp_all add: and_then_def)

lemma and_then_Inr [simp]: "and_then (Inr u) f = f u"
  by (simp add: and_then_def)

lemma and_then_Inl [simp]: "and_then (Inl e) f = Inl e"
  by (simp add: and_then_def)

lemma Intn_Inr:
  "Intn n rs = Inr (k, rs') \<longleftrightarrow> 0 < n \<and> k = int (rs 0 mod nat n) \<and> rs' = (\<lambda>i. rs (Suc i))"
  by (auto simp: Intn_def)

lemma Intn_range:
  assumes "Intn n rs = Inr (k, rs')"
  shows "0 \<le> k \<and> k < n \<and> nat k < nat n"
proof -
  from assms have n: "0 < n" and k: "k = int (rs 0 mod nat n)"
    by (auto simp: Intn_def split: if_splits)
  have "rs 0 mod nat n < nat n" using n by simp
  then show ?thesis using n k by linarith
qed

lemma filter_update_le:
  "\<not> P v \<Longrightarrow> length (filter P (xs[i := v])) \<le> length (filter P xs)"
proof (induction xs arbitrary: i)
  case Nil
  then show ?case by simp
next
  case (Cons x xs)
  then show ?case by (cases i) (auto simp: le_SucI)
qed

lemma filter_update_less:
  "i < length xs \<Longrightarrow> P (xs ! i) \<Longrightarrow> \<not> P v \<Longrightarrow>
   length (filter P (xs[i := v])) < length (filter P xs)"
proof (induction xs arbitrary: i)
  case Nil
  then show ?case by simp
next
  case (Cons x xs)
  then show ?case by (cases i) (auto simp: less_SucI)
qed

lemma filter_update2_less:
  assumes "i < length xs" "P (xs ! i)" "\<not> P v"
  shows "length (filter P (xs[j := v, i := v])) < length (filter P xs)"
proof -
  have "xs[j := v, i := v] = xs[i := v, j := v]"
    by (cases "i = j") (simp_all add: list_update_swap)
  then have "length (filter P (xs[j := v, i := v])) \<le> length (filter P (xs[i := v]))"
    using filter_update_le [of P v "xs[i := v]" j] assms(3) by simp
  also have "\<dots> < length (filter P xs)" using assms by (rule filter_update_less)
  finally show ?thesis .
qed

lemma unmade_dirs_sound:
  "unmade_dirs g cell ds acc = Inr un \<Longrightarrow> d \<in> set un \<Longrightarrow>
   d \<in> set acc \<or> (d \<in> set ds \<and> canCarve g cell d = Inr True)"
proof (induction ds arbitrary: acc)
  case Nil
  then show ?case by simp
next
  case (Cons x ds)
  from Cons.prems(1) obtain c where c: "canCarve g cell x = Inr c"
    and rest: "unmade_dirs g cell ds (if c then acc @ [x] else acc) = Inr un"
    by (auto split: sum.splits)
  from Cons.IH [OF rest Cons.prems(2)] c show ?case
    by (auto split: if_splits)
qed

lemma canCarve_True:
  "canCarve g c d = Inr True \<Longrightarrow>
   pt_In (AddDir (AddDir (AddDir c d) d) d) (Bounds g) \<and> At g (AddDir (AddDir c d) d) = Inr Rock"
  by (auto simp: canCarve_def Let_def split: if_splits)

lemma At_Inr:
  "At g p = Inr m \<longleftrightarrow> 0 \<le> index g p \<and> index g p < int (length (g_arr g)) \<and> g_arr g ! nat (index g p) = m"
  by (auto simp: At_def Let_def)

lemma SetMaterial_Inr:
  "SetMaterial g p m = Inr g' \<longleftrightarrow>
   0 \<le> index g p \<and> index g p < int (length (g_arr g)) \<and> g' = g\<lparr>g_arr := (g_arr g)[nat (index g p) := m]\<rparr>"
  by (auto simp: SetMaterial_def Let_def)

lemma SetRegion_Inr:
  "SetRegion g p r = Inr g' \<longleftrightarrow>
   0 \<le> index g p \<and> index g p < int (length (regions g)) \<and> g' = g\<lparr>regions := (regions g)[nat (index g p) := r]\<rparr>"
  by (auto simp: SetRegion_def Let_def)

lemma index_Size: "Size g' = Size g \<Longrightarrow> index g' p = index g p"
  by (simp add: index_def)

text \<open>What one iteration does, by its two branches.\<close>

lemma grow_iter_cases:
  assumes "grow_iter reg st = Inr st'"
  obtains (dead_end) k where "Intn (int (length (cells st))) (rand st) = Inr (k, rand st')"
      "unmade_dirs (grid_of st) (cells st ! nat k) Dirs [] = Inr []"
      "grid_of st' = grid_of st" "cells st' = tl (cells st)"
  | (carve) k rs1 unmade j dir where
      "Intn (int (length (cells st))) (rand st) = Inr (k, rs1)"
      "unmade_dirs (grid_of st) (cells st ! nat k) Dirs [] = Inr unmade"
      "unmade \<noteq> []"
      "Intn (int (length unmade)) rs1 = Inr (j, rand st')"
      "dir = unmade ! nat j"
      "cells st' = cells st @ [AddDir (AddDir (cells st ! nat k) dir) dir]"
      "Size (grid_of st') = Size (grid_of st)"
      "regCount (grid_of st') = regCount (grid_of st)"
      "g_arr (grid_of st') = (g_arr (grid_of st))
          [nat (index (grid_of st) (AddDir (cells st ! nat k) dir)) := Carved,
           nat (index (grid_of st) (AddDir (AddDir (cells st ! nat k) dir) dir)) := Carved]"
      "regions (grid_of st') = (regions (grid_of st))
          [nat (index (grid_of st) (AddDir (cells st ! nat k) dir)) := reg,
           nat (index (grid_of st) (AddDir (AddDir (cells st ! nat k) dir) dir)) := reg]"
proof -
  from assms obtain k rs1 unmade where
    k: "Intn (int (length (cells st))) (rand st) = Inr (k, rs1)"
    and un: "unmade_dirs (grid_of st) (cells st ! nat k) Dirs [] = Inr unmade"
    and rest: "(if length unmade > 0 then
         and_then (Intn (int (length unmade)) rs1) (\<lambda>(j, rs2).
         let dir = unmade ! nat j in
         and_then (SetMaterial (grid_of st) (AddDir (cells st ! nat k) dir) Carved) (\<lambda>g1.
         and_then (SetRegion g1 (AddDir (cells st ! nat k) dir) reg) (\<lambda>g2.
         and_then (SetMaterial g2 (AddDir (AddDir (cells st ! nat k) dir) dir) Carved) (\<lambda>g3.
         and_then (SetRegion g3 (AddDir (AddDir (cells st ! nat k) dir) dir) reg) (\<lambda>g4.
           Inr \<lparr>grid_of = g4, cells = cells st @ [AddDir (AddDir (cells st ! nat k) dir) dir],
                rand = rs2\<rparr>)))))
       else Inr \<lparr>grid_of = grid_of st, cells = tl (cells st), rand = rs1\<rparr>) = Inr st'"
    unfolding grow_iter_def Let_def by (auto split: prod.splits)
  show thesis
  proof (cases "unmade = []")
    case True
    with rest have "st' = \<lparr>grid_of = grid_of st, cells = tl (cells st), rand = rs1\<rparr>" by simp
    with k un True show thesis by (intro dead_end [of k]) simp_all
  next
    case False
    with rest obtain j rs2 g1 g2 g3 g4 where
      j: "Intn (int (length unmade)) rs1 = Inr (j, rs2)"
      and g1: "SetMaterial (grid_of st) (AddDir (cells st ! nat k) (unmade ! nat j)) Carved = Inr g1"
      and g2: "SetRegion g1 (AddDir (cells st ! nat k) (unmade ! nat j)) reg = Inr g2"
      and g3: "SetMaterial g2 (AddDir (AddDir (cells st ! nat k) (unmade ! nat j)) (unmade ! nat j)) Carved = Inr g3"
      and g4: "SetRegion g3 (AddDir (AddDir (cells st ! nat k) (unmade ! nat j)) (unmade ! nat j)) reg = Inr g4"
      and st': "st' = \<lparr>grid_of = g4, cells = cells st @ [AddDir (AddDir (cells st ! nat k) (unmade ! nat j)) (unmade ! nat j)], rand = rs2\<rparr>"
      by (auto simp: Let_def split: prod.splits)
    from g1 g2 g3 g4 have
      "Size g4 = Size (grid_of st)" "regCount g4 = regCount (grid_of st)"
      "g_arr g4 = (g_arr (grid_of st))
          [nat (index (grid_of st) (AddDir (cells st ! nat k) (unmade ! nat j))) := Carved,
           nat (index (grid_of st) (AddDir (AddDir (cells st ! nat k) (unmade ! nat j)) (unmade ! nat j))) := Carved]"
      "regions g4 = (regions (grid_of st))
          [nat (index (grid_of st) (AddDir (cells st ! nat k) (unmade ! nat j))) := reg,
           nat (index (grid_of st) (AddDir (AddDir (cells st ! nat k) (unmade ! nat j)) (unmade ! nat j))) := reg]"
      by (auto simp: SetMaterial_Inr SetRegion_Inr index_def)
    with k un False j st' show thesis
      by (intro carve [of k rs1 unmade j "unmade ! nat j"]) simp_all
  qed
qed

lemma grow_iter_progress:
  assumes "grow_iter reg st = Inr st'" and "cells st \<noteq> []"
  shows "rocks (grid_of st') < rocks (grid_of st) \<and> length (cells st') = length (cells st) + 1 \<or>
         grid_of st' = grid_of st \<and> length (cells st') + 1 = length (cells st)"
  using assms(1)
proof (cases rule: grow_iter_cases)
  case (dead_end k)
  with assms(2) show ?thesis by (cases "cells st") simp_all
next
  case (carve k rs1 unmade j dir)
  let ?g = "grid_of st" and ?c = "cells st ! nat k"
  have "nat j < length unmade" using Intn_range [OF carve(4)] by simp
  then have "dir \<in> set unmade" using carve(5) by simp
  from unmade_dirs_sound [OF carve(2) this] have "canCarve ?g ?c dir = Inr True" by simp
  then have "At ?g (AddDir (AddDir ?c dir) dir) = Inr Rock" by (simp add: canCarve_True)
  then have "nat (index ?g (AddDir (AddDir ?c dir) dir)) < length (g_arr ?g)"
    "g_arr ?g ! nat (index ?g (AddDir (AddDir ?c dir) dir)) = Rock"
    by (auto simp: At_Inr)
  then have "rocks (grid_of st') < rocks ?g"
    unfolding rocks_def carve(9) by (intro filter_update2_less) simp_all
  with carve(6) show ?thesis by simp
qed

lemma grow_iter_decreases:
  assumes "grow_iter reg st = Inr st'" and "cells st \<noteq> []"
  shows "2 * rocks (grid_of st') + length (cells st') < 2 * rocks (grid_of st) + length (cells st)"
  using grow_iter_progress [OF assms] by auto

text \<open>
  The loop of \<^verbatim>\<open>grow\<close>. Every iteration lowers twice the number of Rock entries plus
  the number of active cells, so the recursion is well founded on every state.
\<close>

function grow_loop :: "region \<Rightarrow> grow_state \<Rightarrow> error + grow_state" where
  "grow_loop reg st =
     (if length (cells st) > 0 then
        (case grow_iter reg st of Inl e \<Rightarrow> Inl e | Inr st' \<Rightarrow> grow_loop reg st')
      else Inr st)"
  by pat_completeness auto
termination
proof (relation "measure (\<lambda>(reg, st). 2 * rocks (grid_of st) + length (cells st))")
  show "wf (measure (\<lambda>(reg, st). 2 * rocks (grid_of st) + length (cells st)))" by simp
next
  fix reg :: region and st st' :: grow_state
  assume "0 < length (cells st)" and "grow_iter reg st = Inr st'"
  then show "((reg, st'), (reg, st)) \<in> measure (\<lambda>(reg, st). 2 * rocks (grid_of st) + length (cells st))"
    using grow_iter_decreases [of reg st st'] by simp
qed

declare grow_loop.simps [simp del]

definition grow :: "grid \<Rightarrow> point \<Rightarrow> region \<Rightarrow> rand_src \<Rightarrow> error + (grid \<times> rand_src)" where
  "grow g from_p reg rs =
     and_then (grow_loop reg \<lparr>grid_of = g, cells = [from_p], rand = rs\<rparr>)
       (\<lambda>st. Inr (grid_of st, rand st))"

section \<open>Indices of cells inside the bounds\<close>

lemma wrap64_id: "- (2 ^ 63) \<le> i \<Longrightarrow> i < 2 ^ 63 \<Longrightarrow> wrap64 i = i"
  by (simp add: wrap64_def)

lemma Bounds_wf:
  "wf_grid g \<Longrightarrow> pt_In p (Bounds g) \<longleftrightarrow> 0 \<le> X p \<and> X p < X (Size g) \<and> 0 \<le> Y p \<and> Y p < Y (Size g)"
  by (auto simp: wf_grid_def Bounds_def Rect_def pt_In_def Pt_def)

lemma cell_count_bound:
  assumes "0 \<le> x" "x < w" "0 \<le> y" "y < h"
  shows "y * w + x < w * (h::int)" "0 \<le> y * w + x"
proof -
  have "y + 1 \<le> h" using assms by simp
  then have "(y + 1) * w \<le> h * w" using assms by (intro mult_right_mono) auto
  then show "y * w + x < w * h" using assms by (simp add: algebra_simps)
  show "0 \<le> y * w + x" using assms by simp
qed

lemma index_in_bounds:
  assumes "wf_grid g" "pt_In p (Bounds g)"
  shows "index g p = Y p * X (Size g) + X p"
    and "0 \<le> index g p" and "index g p < int (length (g_arr g))"
proof -
  from assms have b: "0 \<le> X p" "X p < X (Size g)" "0 \<le> Y p" "Y p < Y (Size g)"
    by (simp_all add: Bounds_wf)
  have len: "int (length (g_arr g)) = X (Size g) * Y (Size g)" "int (length (g_arr g)) < 2 ^ 61"
    using assms(1) by (simp_all add: wf_grid_def)
  have lt: "Y p * X (Size g) + X p < X (Size g) * Y (Size g)" and ge: "0 \<le> Y p * X (Size g) + X p"
    using cell_count_bound [OF b] by simp_all
  have ge1: "0 \<le> Y p * X (Size g)" using b by simp
  have le1: "Y p * X (Size g) \<le> Y p * X (Size g) + X p" using b by simp
  have w1: "wrap64 (Y p * X (Size g)) = Y p * X (Size g)"
    using ge1 le1 lt len by (intro wrap64_id; simp)
  have w2: "wrap64 (Y p * X (Size g) + X p) = Y p * X (Size g) + X p"
    using ge lt len by (intro wrap64_id; simp)
  show "index g p = Y p * X (Size g) + X p" by (simp add: index_def w1 w2)
  then show "0 \<le> index g p" "index g p < int (length (g_arr g))" using ge lt len by simp_all
qed

lemma cell_of_index:
  assumes "wf_grid g" "0 \<le> i" "i < int (length (g_arr g))"
  shows "pt_In (Pt (i mod X (Size g)) (i div X (Size g))) (Bounds g)"
    and "index g (Pt (i mod X (Size g)) (i div X (Size g))) = i"
proof -
  let ?w = "X (Size g)" and ?h = "Y (Size g)"
  have len: "int (length (g_arr g)) = ?w * ?h" and w0: "0 \<le> ?w" and h0: "0 \<le> ?h"
    using assms(1) by (simp_all add: wf_grid_def)
  have "?w \<noteq> 0" using assms len by auto
  then have wpos: "0 < ?w" using w0 by simp
  have "i div ?w < ?h"
  proof (rule ccontr)
    assume "\<not> i div ?w < ?h"
    then have "?h * ?w \<le> (i div ?w) * ?w" using wpos by (intro mult_right_mono) auto
    also have "\<dots> \<le> i" using wpos by (simp add: div_mult_self1_is_m minus_mod_eq_div_mult [symmetric])
    finally show False using assms len by (simp add: mult.commute)
  qed
  moreover have "0 \<le> i div ?w" using assms wpos by (simp add: pos_imp_zdiv_nonneg_iff)
  ultimately show in_b: "pt_In (Pt (i mod ?w) (i div ?w)) (Bounds g)"
    using wpos assms(1) by (simp add: Bounds_wf Pt_def)
  show "index g (Pt (i mod ?w) (i div ?w)) = i"
    using index_in_bounds(1) [OF assms(1) in_b] by (simp add: Pt_def)
qed

section \<open>Growing passes over the lattice\<close>

text \<open>
  The values of the counter of \<^verbatim>\<open>for v := lo; v < hi; v += 2\<close>, and of the same
  loop with \<^verbatim>\<open>v += 1\<close>. The bounds come from \<open>Bounds\<close>, whose minimum is at
  most 0 and whose maximum is at least 0, so the counter stays inside the 64-bit range.
\<close>

function range2 :: "int \<Rightarrow> int \<Rightarrow> int list" where
  "range2 v hi = (if v < hi then v # range2 (v + 2) hi else [])"
  by pat_completeness auto
termination
  by (relation "measure (\<lambda>(v, hi). nat (hi - v))") auto

declare range2.simps [simp del]

function range1 :: "int \<Rightarrow> int \<Rightarrow> int list" where
  "range1 v hi = (if v < hi then v # range1 (v + 1) hi else [])"
  by pat_completeness auto
termination
  by (relation "measure (\<lambda>(v, hi). nat (hi - v))") auto

declare range1.simps [simp del]

text \<open>The inner loop of \<^verbatim>\<open>growMaze\<close> over \<open>x\<close>, and the outer loop over \<open>y\<close>.\<close>

fun grow_row ::
  "region \<Rightarrow> int \<Rightarrow> int list \<Rightarrow> grid \<times> rand_src \<Rightarrow> error + (grid \<times> rand_src)" where
  "grow_row reg y [] s = Inr s"
| "grow_row reg y (x # xs) (g, rs) =
     (case grow g (Pt x y) reg rs of
        Inl e \<Rightarrow> Inl e
      | Inr s' \<Rightarrow> grow_row reg y xs s')"

fun grow_rows ::
  "region \<Rightarrow> int list \<Rightarrow> int list \<Rightarrow> grid \<times> rand_src \<Rightarrow> error + (grid \<times> rand_src)" where
  "grow_rows reg [] xs s = Inr s"
| "grow_rows reg (y # ys) xs s =
     (case grow_row reg y xs s of
        Inl e \<Rightarrow> Inl e
      | Inr s' \<Rightarrow> grow_rows reg ys xs s')"

definition growMaze :: "grid \<Rightarrow> rand_src \<Rightarrow> error + (grid \<times> rand_src)" where
  "growMaze g rs =
     (let bounds = Bounds g;
          (reg, g1) = NewRegion g
      in grow_rows reg (range2 (Y (Min_r bounds) + 1) (Y (Max_r bounds)))
           (range2 (X (Min_r bounds) + 1) (X (Max_r bounds))) (g1, rs))"

text \<open>
  The same loops with a log of the passes: each call of \<open>grow\<close> is recorded with its
  seed and with the material found at the seed when the call is made.
\<close>

type_synonym pass = "point \<times> (error + material)"

fun grow_row_log ::
  "region \<Rightarrow> int \<Rightarrow> int list \<Rightarrow> (grid \<times> rand_src) \<times> pass list
     \<Rightarrow> error + ((grid \<times> rand_src) \<times> pass list)" where
  "grow_row_log reg y [] s = Inr s"
| "grow_row_log reg y (x # xs) ((g, rs), passes) =
     (case grow g (Pt x y) reg rs of
        Inl e \<Rightarrow> Inl e
      | Inr s' \<Rightarrow> grow_row_log reg y xs (s', passes @ [(Pt x y, At g (Pt x y))]))"

fun grow_rows_log ::
  "region \<Rightarrow> int list \<Rightarrow> int list \<Rightarrow> (grid \<times> rand_src) \<times> pass list
     \<Rightarrow> error + ((grid \<times> rand_src) \<times> pass list)" where
  "grow_rows_log reg [] xs s = Inr s"
| "grow_rows_log reg (y # ys) xs s =
     (case grow_row_log reg y xs s of
        Inl e \<Rightarrow> Inl e
      | Inr s' \<Rightarrow> grow_rows_log reg ys xs s')"

definition growMaze_log :: "grid \<Rightarrow> rand_src \<Rightarrow> error + ((grid \<times> rand_src) \<times> pass list)" where
  "growMaze_log g rs =
     (let bounds = Bounds g;
          (reg, g1) = NewRegion g
      in grow_rows_log reg (range2 (Y (Min_r bounds) + 1) (Y (Max_r bounds)))
           (range2 (X (Min_r bounds) + 1) (X (Max_r bounds))) ((g1, rs), []))"

text \<open>The odd lattice points inside the bounds of a grid, row by row.\<close>

definition lattice :: "grid \<Rightarrow> point list" where
  "lattice g =
     concat (map (\<lambda>y. map (\<lambda>x. Pt x y) (filter odd [0..X (Size g) - 1]))
       (filter odd [0..Y (Size g) - 1]))"

section \<open>Connectors\<close>

record conn =
  c_dir :: direction
  c_region :: region

record connector =
  conn_a :: conn
  conn_b :: conn
  loc :: point

text \<open>The body of the loop over \<open>Dirs\<close> in \<^verbatim>\<open>findConnectors\<close>.\<close>

definition connect_dir ::
  "grid \<Rightarrow> point \<Rightarrow> direction \<Rightarrow> connector list \<Rightarrow> error + connector list" where
  "connect_dir g here dir conns =
     (let theOtherWay = Reverse dir;
          a = AddDir here dir;
          b = AddDir here theOtherWay
      in and_then (RegionAt g a) (\<lambda>ra.
         and_then (RegionAt g b) (\<lambda>rb.
         and_then (At g a) (\<lambda>ma.
           if ma = Rock then Inr conns
           else and_then (At g b) (\<lambda>mb.
             if mb = Rock then Inr conns
             else if ra \<noteq> rb then
               Inr (conns @ [\<lparr>conn_a = \<lparr>c_dir = dir, c_region = ra\<rparr>,
                               conn_b = \<lparr>c_dir = theOtherWay, c_region = rb\<rparr>,
                               loc = here\<rparr>])
             else Inr conns)))))"

fun connect_dirs ::
  "grid \<Rightarrow> point \<Rightarrow> direction list \<Rightarrow> connector list \<Rightarrow> error + connector list" where
  "connect_dirs g here [] conns = Inr conns"
| "connect_dirs g here (d # ds) conns =
     (case connect_dir g here d conns of
        Inl e \<Rightarrow> Inl e
      | Inr conns' \<Rightarrow> connect_dirs g here ds conns')"

text \<open>The body of the loop over \<open>x\<close>: a cell that is not Rock is skipped.\<close>

definition connect_cell :: "grid \<Rightarrow> point \<Rightarrow> connector list \<Rightarrow> error + connector list" where
  "connect_cell g here conns =
     and_then (At g here) (\<lambda>mat.
       if mat \<noteq> Rock then Inr conns else connect_dirs g here Dirs conns)"

fun connect_row ::
  "grid \<Rightarrow> int \<Rightarrow> int list \<Rightarrow> connector list \<Rightarrow> error + connector list" where
  "connect_row g y [] conns = Inr conns"
| "connect_row g y (x # xs) conns =
     (case connect_cell g (Pt x y) conns of
        Inl e \<Rightarrow> Inl e
      | Inr conns' \<Rightarrow> connect_row g y xs conns')"

fun connect_rows ::
  "grid \<Rightarrow> int list \<Rightarrow> int list \<Rightarrow> connector list \<Rightarrow> error + connector list" where
  "connect_rows g [] xs conns = Inr conns"
| "connect_rows g (y # ys) xs conns =
     (case connect_row g y xs conns of
        Inl e \<Rightarrow> Inl e
      | Inr conns' \<Rightarrow> connect_rows g ys xs conns')"

definition findConnectors :: "grid \<Rightarrow> error + connector list" where
  "findConnectors g =
     (let bounds = Bounds g in
      connect_rows g (range1 (Y (Min_r bounds) + 2) (Y (Max_r bounds) - 2))
        (range1 (X (Min_r bounds) + 2) (X (Max_r bounds) - 2)) [])"

section \<open>Example grids\<close>

text \<open>A grid of 3 by 3 cells, all Rock, as \<open>newGrid\<close> builds it.\<close>

definition grid3 :: grid where
  "grid3 = \<lparr>g_arr = [Rock, Rock, Rock,
                      Rock, Rock, Rock,
                      Rock, Rock, Rock], Size = Pt 3 3,
             regions = [0, 0, 0,
                        0, 0, 0,
                        0, 0, 0], regCount = 0\<rparr>"

text \<open>A grid of 5 by 3 cells, all Rock.\<close>

definition grid5x3 :: grid where
  "grid5x3 = \<lparr>g_arr = [Rock, Rock, Rock, Rock, Rock,
                        Rock, Rock, Rock, Rock, Rock,
                        Rock, Rock, Rock, Rock, Rock], Size = Pt 5 3,
               regions = [0, 0, 0, 0, 0,
                          0, 0, 0, 0, 0,
                          0, 0, 0, 0, 0], regCount = 0\<rparr>"

text \<open>The same grid with the lattice point \<open>(1, 1)\<close> carved as region 1.\<close>

definition grid5x3_carved :: grid where
  "grid5x3_carved = \<lparr>g_arr = [Rock, Rock, Rock, Rock, Rock,
                               Rock, Carved, Rock, Rock, Rock,
                               Rock, Rock, Rock, Rock, Rock], Size = Pt 5 3,
                      regions = [0, 0, 0, 0, 0,
                                 0, 1, 0, 0, 0,
                                 0, 0, 0, 0, 0], regCount = 1\<rparr>"

text \<open>
  A grid of 5 by 5 cells: Rock at the centre, region 1 to its left and region 2 to its
  right.
\<close>

definition grid5x5 :: grid where
  "grid5x5 = \<lparr>g_arr = [Rock, Rock, Rock, Rock, Rock,
                        Rock, Rock, Rock, Rock, Rock,
                        Rock, Carved, Rock, Carved, Rock,
                        Rock, Rock, Rock, Rock, Rock,
                        Rock, Rock, Rock, Rock, Rock], Size = Pt 5 5,
               regions = [0, 0, 0, 0, 0,
                          0, 0, 0, 0, 0,
                          0, 1, 0, 2, 0,
                          0, 0, 0, 0, 0,
                          0, 0, 0, 0, 0], regCount = 2\<rparr>"

text \<open>Evaluation of the definitions on explicit values.\<close>

lemma wrap64_numeral [simp]:
  "wrap64 0 = 0" "wrap64 1 = 1" "wrap64 (- 1) = - 1"
  "wrap64 (numeral n) = (numeral n + 2 ^ 63) mod 2 ^ 64 - 2 ^ 63"
  "wrap64 (- numeral n) = (- numeral n + 2 ^ 63) mod 2 ^ 64 - 2 ^ 63"
  by (simp_all add: wrap64_def)

lemma Intn_always:
  "Intn n (always k) = (if n \<le> 0 then Inl IntnArgument else Inr (int (k mod nat n), always k))"
  by (simp add: Intn_def always_def)

lemma list_update_numeral [simp]:
  "(x # xs)[numeral k := v] = x # xs[pred_numeral k := v]"
  by (simp add: numeral_eq_Suc)

lemma AddDir_Pt:
  "AddDir \<lparr>X = x, Y = y\<rparr> \<lparr>X = a, Y = b\<rparr> = \<lparr>X = wrap64 (x + a), Y = wrap64 (y + b)\<rparr>"
  by (simp add: AddDir_def Add_def Pt_def)

lemma Dirs_points:
  "Dirs = [\<lparr>X = 0, Y = - 1\<rparr>, \<lparr>X = 1, Y = 0\<rparr>, \<lparr>X = 0, Y = 1\<rparr>, \<lparr>X = - 1, Y = 0\<rparr>]"
  by (simp add: Dirs_def Dir_Up_def Dir_Right_def Dir_Down_def Dir_Left_def D_def Pt_def)

lemma Bounds_grid3: "Bounds grid3 = \<lparr>Min_r = \<lparr>X = 0, Y = 0\<rparr>, Max_r = \<lparr>X = 3, Y = 3\<rparr>\<rparr>"
  by (simp add: Bounds_def Rect_def grid3_def Pt_def)

lemma Bounds_grid5x3: "Bounds grid5x3 = \<lparr>Min_r = \<lparr>X = 0, Y = 0\<rparr>, Max_r = \<lparr>X = 5, Y = 3\<rparr>\<rparr>"
  by (simp add: Bounds_def Rect_def grid5x3_def Pt_def)

lemma wf_grid3: "wf_grid grid3"
  by (simp add: wf_grid_def grid3_def Pt_def)

lemma wf_grid5x3: "wf_grid grid5x3"
  by (simp add: wf_grid_def grid5x3_def Pt_def)

lemma Regions_loop_eq: "Regions_loop i n regs = regs @ [i..n - 1]"
proof (induction i n regs rule: Regions_loop.induct)
  case (1 i n regs)
  show ?case
  proof (cases "i < n")
    case True
    then have "[i..n - 1] = i # [i + 1..n - 1]" by (simp add: upto_rec1)
    with True 1 show ?thesis by (subst Regions_loop.simps) simp
  next
    case False
    then show ?thesis by (subst Regions_loop.simps) simp
  qed
qed

section \<open>Region ids\<close>

text \<open>
  C1. After N calls of \<open>NewRegion\<close>, \<open>Regions\<close> should list the ids 1, ..., N. On a
  new grid of 3 by 3 cells two calls of \<open>NewRegion\<close> return the ids 1 and 2, and
  \<open>Regions\<close> then lists 0 and 1: the loop counts from 0 up to the counter, exclusive.
\<close>

theorem Regions_lists_zero_to_count_minus_one:
  "newGrid (Pt 3 3) = Inr grid3 \<and>
   fst (NewRegion grid3) = 1 \<and>
   fst (NewRegion (snd (NewRegion grid3))) = 2 \<and>
   Regions (snd (NewRegion (snd (NewRegion grid3)))) = [0, 1]"
  by (simp add: newGrid_def maxAlloc_def grid3_def Pt_def Regions_def NewRegion_def
      Regions_loop_eq upto_rec1 numeral_eq_Suc)

section \<open>Access outside the bounds\<close>

text \<open>
  C5, as amended. For a point outside the bounds of a well-formed grid, each of \<open>At\<close>,
  \<open>RegionAt\<close>, \<open>SetMaterial\<close> and \<open>SetRegion\<close> panics when the linear index
  \<open>y * width + x\<close> falls outside the slice; when the index falls inside the slice, the call
  does not panic: it returns, or overwrites, the entry at this index, which is the entry of
  a cell of the grid other than the point given.
\<close>

theorem out_of_bounds_access_by_linear_index:
  assumes "wf_grid g" and "\<not> pt_In p (Bounds g)"
  shows "(index g p < 0 \<or> int (length (g_arr g)) \<le> index g p \<longrightarrow>
            At g p = Inl IndexOutOfRange \<and> RegionAt g p = Inl IndexOutOfRange \<and>
            SetMaterial g p m = Inl IndexOutOfRange \<and> SetRegion g p r = Inl IndexOutOfRange) \<and>
         (0 \<le> index g p \<and> index g p < int (length (g_arr g)) \<longrightarrow>
            (let q = Pt (index g p mod X (Size g)) (index g p div X (Size g)) in
               pt_In q (Bounds g) \<and> q \<noteq> p \<and>
               At g p = At g q \<and> At g p = Inr (g_arr g ! nat (index g p)) \<and>
               RegionAt g p = RegionAt g q \<and> RegionAt g p = Inr (regions g ! nat (index g p)) \<and>
               SetMaterial g p m = SetMaterial g q m \<and>
               SetMaterial g p m = Inr (g\<lparr>g_arr := (g_arr g)[nat (index g p) := m]\<rparr>) \<and>
               SetRegion g p r = SetRegion g q r \<and>
               SetRegion g p r = Inr (g\<lparr>regions := (regions g)[nat (index g p) := r]\<rparr>)))"
proof (intro conjI impI)
  assume "index g p < 0 \<or> int (length (g_arr g)) \<le> index g p"
  moreover have "length (regions g) = length (g_arr g)" using assms(1) by (simp add: wf_grid_def)
  ultimately show "At g p = Inl IndexOutOfRange" "RegionAt g p = Inl IndexOutOfRange"
    "SetMaterial g p m = Inl IndexOutOfRange" "SetRegion g p r = Inl IndexOutOfRange"
    by (auto simp: At_def RegionAt_def SetMaterial_def SetRegion_def)
next
  assume a: "0 \<le> index g p \<and> index g p < int (length (g_arr g))"
  define q where "q = Pt (index g p mod X (Size g)) (index g p div X (Size g))"
  have len: "length (regions g) = length (g_arr g)" using assms(1) by (simp add: wf_grid_def)
  have qb: "pt_In q (Bounds g)" and qi: "index g q = index g p"
    using cell_of_index [OF assms(1), of "index g p"] a by (simp_all add: q_def)
  have "q \<noteq> p" using qb assms(2) by auto
  moreover have "At g p = At g q" "RegionAt g p = RegionAt g q"
    "SetMaterial g p m = SetMaterial g q m" "SetRegion g p r = SetRegion g q r"
    by (simp_all add: At_def RegionAt_def SetMaterial_def SetRegion_def qi)
  moreover have "At g p = Inr (g_arr g ! nat (index g p))"
    "RegionAt g p = Inr (regions g ! nat (index g p))"
    "SetMaterial g p m = Inr (g\<lparr>g_arr := (g_arr g)[nat (index g p) := m]\<rparr>)"
    "SetRegion g p r = Inr (g\<lparr>regions := (regions g)[nat (index g p) := r]\<rparr>)"
    using a len by (simp_all add: At_def RegionAt_def SetMaterial_def SetRegion_def)
  ultimately show "let q = Pt (index g p mod X (Size g)) (index g p div X (Size g)) in
               pt_In q (Bounds g) \<and> q \<noteq> p \<and>
               At g p = At g q \<and> At g p = Inr (g_arr g ! nat (index g p)) \<and>
               RegionAt g p = RegionAt g q \<and> RegionAt g p = Inr (regions g ! nat (index g p)) \<and>
               SetMaterial g p m = SetMaterial g q m \<and>
               SetMaterial g p m = Inr (g\<lparr>g_arr := (g_arr g)[nat (index g p) := m]\<rparr>) \<and>
               SetRegion g p r = SetRegion g q r \<and>
               SetRegion g p r = Inr (g\<lparr>regions := (regions g)[nat (index g p) := r]\<rparr>)"
    using qb unfolding q_def Let_def by simp
qed

theorem out_of_bounds_access_by_linear_index_witness:
  "wf_grid grid3 \<and> \<not> pt_In (Pt 3 0) (Bounds grid3) \<and>
   \<not> pt_In (Pt 0 3) (Bounds grid3) \<and>
   At grid3 (Pt 0 3) = Inl IndexOutOfRange \<and>
   RegionAt grid3 (Pt 0 3) = Inl IndexOutOfRange \<and>
   SetMaterial grid3 (Pt 0 3) Carved = Inl IndexOutOfRange \<and>
   SetRegion grid3 (Pt 0 3) 7 = Inl IndexOutOfRange \<and>
   pt_In (Pt 0 1) (Bounds grid3) \<and>
   At grid3 (Pt 3 0) = At grid3 (Pt 0 1) \<and>
   SetMaterial grid3 (Pt 3 0) Carved = SetMaterial grid3 (Pt 0 1) Carved \<and>
   SetMaterial grid3 (Pt 3 0) Carved = Inr (grid3\<lparr>g_arr := (g_arr grid3)[3 := Carved]\<rparr>) \<and>
   SetRegion grid3 (Pt 3 0) 7 = SetRegion grid3 (Pt 0 1) 7 \<and>
   SetRegion grid3 (Pt 3 0) 7 = Inr (grid3\<lparr>regions := (regions grid3)[3 := 7]\<rparr>)"
proof -
  have nb: "\<not> pt_In (Pt 3 0) (Bounds grid3)" "\<not> pt_In (Pt 0 3) (Bounds grid3)"
    by (simp_all add: pt_In_def Bounds_def Rect_def grid3_def Pt_def)
  have i1: "index grid3 (Pt 3 0) = 3" and i2: "index grid3 (Pt 0 3) = 9"
    by (simp_all add: index_def grid3_def Pt_def wrap64_def)
  have l: "length (g_arr grid3) = 9" by (simp add: grid3_def)
  have s: "X (Size grid3) = 3" by (simp add: grid3_def Pt_def)
  have inside: "pt_In (Pt 0 1) (Bounds grid3) \<and>
      At grid3 (Pt 3 0) = At grid3 (Pt 0 1) \<and>
      SetMaterial grid3 (Pt 3 0) Carved = SetMaterial grid3 (Pt 0 1) Carved \<and>
      SetMaterial grid3 (Pt 3 0) Carved = Inr (grid3\<lparr>g_arr := (g_arr grid3)[3 := Carved]\<rparr>) \<and>
      SetRegion grid3 (Pt 3 0) 7 = SetRegion grid3 (Pt 0 1) 7 \<and>
      SetRegion grid3 (Pt 3 0) 7 = Inr (grid3\<lparr>regions := (regions grid3)[3 := 7]\<rparr>)"
    using out_of_bounds_access_by_linear_index [OF wf_grid3 nb(1), of Carved 7]
    unfolding i1 l s Let_def by (simp (no_asm_use)) blast
  have outside: "At grid3 (Pt 0 3) = Inl IndexOutOfRange \<and>
      RegionAt grid3 (Pt 0 3) = Inl IndexOutOfRange \<and>
      SetMaterial grid3 (Pt 0 3) Carved = Inl IndexOutOfRange \<and>
      SetRegion grid3 (Pt 0 3) 7 = Inl IndexOutOfRange"
    using out_of_bounds_access_by_linear_index [OF wf_grid3 nb(2), of Carved 7]
    unfolding i2 l by simp
  from inside outside wf_grid3 nb show ?thesis by (intro conjI) (elim conjE, assumption)+
qed

text \<open>
  C5 as stated fails: on the grid of 3 by 3 cells the point \<open>(3, 0)\<close> is outside the
  bounds, and each of the four calls succeeds on the cell \<open>(0, 1)\<close>.
\<close>

theorem out_of_bounds_read_is_not_checked:
  "\<not> pt_In (Pt 3 0) (Bounds grid3) \<and> At grid3 (Pt 3 0) = Inr Rock \<and>
   RegionAt grid3 (Pt 3 0) = Inr 0 \<and>
   SetMaterial grid3 (Pt 3 0) Carved = Inr (grid3\<lparr>g_arr := (g_arr grid3)[3 := Carved]\<rparr>) \<and>
   At (grid3\<lparr>g_arr := (g_arr grid3)[3 := Carved]\<rparr>) (Pt 0 1) = Inr Carved \<and>
   SetRegion grid3 (Pt 3 0) 7 = Inr (grid3\<lparr>regions := (regions grid3)[3 := 7]\<rparr>) \<and>
   RegionAt (grid3\<lparr>regions := (regions grid3)[3 := 7]\<rparr>) (Pt 0 1) = Inr 7"
  by (simp add: pt_In_def Bounds_def Rect_def grid3_def Pt_def At_def RegionAt_def
      SetMaterial_def SetRegion_def index_def wrap64_def numeral_eq_Suc)

section \<open>Carvable directions\<close>

text \<open>The point \<open>c + k * d\<close>, in unbounded arithmetic.\<close>

definition offset :: "point \<Rightarrow> direction \<Rightarrow> int \<Rightarrow> point" where
  "offset c d k = Pt (X c + k * X d) (Y c + k * Y d)"

lemma Dirs_cases:
  assumes "d \<in> set Dirs"
  obtains "X d = 0" "Y d = - 1" | "X d = 1" "Y d = 0" | "X d = 0" "Y d = 1" | "X d = - 1" "Y d = 0"
  using assms by (auto simp: Dirs_def Dir_Up_def Dir_Right_def Dir_Down_def Dir_Left_def D_def Pt_def)

lemma Dirs_unit: "d \<in> set Dirs \<Longrightarrow> \<bar>X d\<bar> \<le> 1 \<and> \<bar>Y d\<bar> \<le> 1"
  by (erule Dirs_cases) simp_all

lemma Size_bound:
  assumes "wf_grid g" "pt_In c (Bounds g)"
  shows "X (Size g) < 2 ^ 61" "Y (Size g) < 2 ^ 61"
proof -
  let ?w = "X (Size g)" and ?h = "Y (Size g)"
  from assms have w: "1 \<le> ?w" and h: "1 \<le> ?h" by (auto simp: Bounds_wf)
  from assms(1) have len: "?w * ?h < 2 ^ 61" by (auto simp: wf_grid_def)
  have "?w * 1 \<le> ?w * ?h" using w h by (intro mult_left_mono) auto
  then show "?w < 2 ^ 61" using len by simp
  have "1 * ?h \<le> ?w * ?h" using w h by (intro mult_right_mono) auto
  then show "?h < 2 ^ 61" using len by simp
qed

lemma AddDir_small:
  assumes "\<bar>X p\<bar> < 2 ^ 62" "\<bar>Y p\<bar> < 2 ^ 62" "\<bar>X d\<bar> \<le> 1" "\<bar>Y d\<bar> \<le> 1"
  shows "AddDir p d = Pt (X p + X d) (Y p + Y d)"
proof -
  have "wrap64 (X p + X d) = X p + X d" using assms by (intro wrap64_id; simp)
  moreover have "wrap64 (Y p + Y d) = Y p + Y d" using assms by (intro wrap64_id; simp)
  ultimately show ?thesis by (simp add: AddDir_def Add_def)
qed

lemma AddDir_offset_step:
  assumes "0 \<le> X c" "X c < 2 ^ 61" "0 \<le> Y c" "Y c < 2 ^ 61" "d \<in> set Dirs" "0 \<le> k" "k \<le> 3"
  shows "AddDir (offset c d k) d = offset c d (k + 1)"
proof -
  have "\<bar>X (offset c d k)\<bar> < 2 ^ 62" "\<bar>Y (offset c d k)\<bar> < 2 ^ 62"
    using assms by (auto simp: offset_def Pt_def elim!: Dirs_cases)
  then have "AddDir (offset c d k) d = Pt (X (offset c d k) + X d) (Y (offset c d k) + Y d)"
    using Dirs_unit [OF assms(5)] by (intro AddDir_small) simp_all
  then show ?thesis by (simp add: offset_def Pt_def algebra_simps)
qed

lemma AddDir_offsets:
  assumes "wf_grid g" "pt_In c (Bounds g)" "d \<in> set Dirs"
  shows "AddDir c d = offset c d 1"
    and "AddDir (offset c d 1) d = offset c d 2"
    and "AddDir (offset c d 2) d = offset c d 3"
proof -
  from assms have c: "0 \<le> X c" "X c < 2 ^ 61" "0 \<le> Y c" "Y c < 2 ^ 61"
    using Size_bound [OF assms(1,2)] by (auto simp: Bounds_wf)
  have 0: "offset c d 0 = c" by (simp add: offset_def Pt_def)
  show "AddDir c d = offset c d 1"
    using AddDir_offset_step [OF c assms(3), of 0] by (simp add: 0)
  show "AddDir (offset c d 1) d = offset c d 2"
    using AddDir_offset_step [OF c assms(3), of 1] by simp
  show "AddDir (offset c d 2) d = offset c d 3"
    using AddDir_offset_step [OF c assms(3), of 2] by simp
qed

lemma offset_between:
  assumes "wf_grid g" "pt_In c (Bounds g)" "pt_In (offset c d 3) (Bounds g)" "d \<in> set Dirs"
  shows "pt_In (offset c d 1) (Bounds g)" "pt_In (offset c d 2) (Bounds g)"
  using assms(2,3) assms(4)
  by (auto simp: Bounds_wf [OF assms(1)] offset_def Pt_def elim!: Dirs_cases)

lemma At_in_bounds:
  assumes "wf_grid g" "pt_In p (Bounds g)"
  shows "At g p = Inr (g_arr g ! nat (Y p * X (Size g) + X p))"
  using index_in_bounds [OF assms] by (simp add: At_def)

lemma RegionAt_in_bounds:
  assumes "wf_grid g" "pt_In p (Bounds g)"
  shows "RegionAt g p = Inr (regions g ! nat (Y p * X (Size g) + X p))"
  using index_in_bounds [OF assms] assms(1) by (simp add: RegionAt_def wf_grid_def)

lemma canCarve_offsets:
  assumes "wf_grid g" and "pt_In c (Bounds g)" and "d \<in> set Dirs"
  shows "canCarve g c d =
           Inr (pt_In (offset c d 3) (Bounds g) \<and> At g (offset c d 2) = Inr Rock)"
proof (cases "pt_In (offset c d 3) (Bounds g)")
  case True
  then have "pt_In (offset c d 2) (Bounds g)" using assms by (intro offset_between)
  then have "At g (offset c d 2) = Inr (g_arr g ! nat (Y (offset c d 2) * X (Size g) + X (offset c d 2)))"
    using assms(1) by (intro At_in_bounds)
  with True show ?thesis
    by (simp add: canCarve_def AddDir_offsets [OF assms])
next
  case False
  then show ?thesis by (simp add: canCarve_def AddDir_offsets [OF assms])
qed

text \<open>
  C6. On a well-formed grid, for a cell \<open>c\<close> inside the bounds and a direction \<open>d\<close> of
  \<open>Dirs\<close>, \<open>canCarve\<close> returns true exactly when \<open>c + 3d\<close> is inside the bounds and the
  material at \<open>c + 2d\<close> is Rock.
\<close>

theorem canCarve_iff:
  assumes "wf_grid g" and "pt_In c (Bounds g)" and "d \<in> set Dirs"
  shows "canCarve g c d =
           Inr (pt_In (offset c d 3) (Bounds g) \<and> At g (offset c d 2) = Inr Rock)"
  using assms by (rule canCarve_offsets)

theorem canCarve_iff_witness:
  "wf_grid grid5x3 \<and> pt_In (Pt 1 1) (Bounds grid5x3) \<and> Dir_Right \<in> set Dirs \<and>
   Dir_Left \<in> set Dirs \<and>
   canCarve grid5x3 (Pt 1 1) Dir_Right = Inr True \<and>
   canCarve grid5x3 (Pt 1 1) Dir_Left = Inr False"
proof -
  have b: "pt_In (Pt 1 1) (Bounds grid5x3)"
    by (simp add: pt_In_def Bounds_def Rect_def grid5x3_def Pt_def)
  have d: "Dir_Right \<in> set Dirs" "Dir_Left \<in> set Dirs" by (simp_all add: Dirs_def)
  have "pt_In (offset (Pt 1 1) Dir_Right 3) (Bounds grid5x3)"
    "At grid5x3 (offset (Pt 1 1) Dir_Right 2) = Inr Rock"
    "\<not> pt_In (offset (Pt 1 1) Dir_Left 3) (Bounds grid5x3)"
    by (simp_all add: pt_In_def Bounds_def Rect_def grid5x3_def Pt_def offset_def Dir_Right_def
        Dir_Left_def D_def At_def index_def wrap64_def)
  then show ?thesis
    using canCarve_iff [OF wf_grid5x3 b d(1)] canCarve_iff [OF wf_grid5x3 b d(2)] b d wf_grid5x3
    by simp
qed

section \<open>Dead ends\<close>

lemma unmade_dirs_none:
  "\<forall>d\<in>set ds. canCarve g cell d = Inr False \<Longrightarrow> unmade_dirs g cell ds acc = Inr acc"
  by (induction ds arbitrary: acc) simp_all

text \<open>
  C9. In an iteration whose examined cell has no carvable direction, the grid is left as
  it is and the active collection loses exactly its first cell, whichever cell was
  examined.
\<close>

theorem dead_end_removes_front:
  assumes "cells st \<noteq> []"
    and "\<forall>d\<in>set Dirs.
           canCarve (grid_of st) (cells st ! (rand st 0 mod length (cells st))) d = Inr False"
  shows "grow_iter reg st =
           Inr \<lparr>grid_of = grid_of st, cells = tl (cells st), rand = (\<lambda>i. rand st (Suc i))\<rparr> \<and>
         cells st = hd (cells st) # tl (cells st)"
proof -
  have "Intn (int (length (cells st))) (rand st) =
          Inr (int (rand st 0 mod length (cells st)), \<lambda>i. rand st (Suc i))"
    using assms(1) by (simp add: Intn_def)
  moreover have "unmade_dirs (grid_of st) (cells st ! (rand st 0 mod length (cells st))) Dirs [] = Inr []"
    using assms(2) by (rule unmade_dirs_none)
  ultimately show ?thesis using assms(1) by (simp add: grow_iter_def)
qed

text \<open>
  On the grid of 3 by 3 cells no cell has a carvable direction. With the active cells
  \<open>(0, 0)\<close> and \<open>(1, 1)\<close> and a draw that examines \<open>(1, 1)\<close>, the cell removed is
  \<open>(0, 0)\<close> and the examined cell stays.
\<close>

theorem dead_end_removes_front_witness:
  "canCarve grid3 (Pt 1 1) Dir_Up = Inr False \<and> canCarve grid3 (Pt 1 1) Dir_Right = Inr False \<and>
   canCarve grid3 (Pt 1 1) Dir_Down = Inr False \<and> canCarve grid3 (Pt 1 1) Dir_Left = Inr False \<and>
   [Pt 0 0, Pt 1 1] ! (always 1 0 mod length [Pt 0 0, Pt 1 1]) = Pt 1 1 \<and>
   grow_iter 1 \<lparr>grid_of = grid3, cells = [Pt 0 0, Pt 1 1], rand = always 1\<rparr> =
     Inr \<lparr>grid_of = grid3, cells = [Pt 1 1], rand = always 1\<rparr>"
proof -
  let ?st = "\<lparr>grid_of = grid3, cells = [Pt 0 0, Pt 1 1], rand = always 1\<rparr>"
  have c: "\<forall>d\<in>set Dirs. canCarve grid3 (Pt 1 1) d = Inr False"
    by (simp add: Dirs_points canCarve_def AddDir_Pt Pt_def pt_In_def Bounds_grid3)
  then have "canCarve grid3 (Pt 1 1) Dir_Up = Inr False \<and>
      canCarve grid3 (Pt 1 1) Dir_Right = Inr False \<and>
      canCarve grid3 (Pt 1 1) Dir_Down = Inr False \<and> canCarve grid3 (Pt 1 1) Dir_Left = Inr False"
    by (simp add: Dirs_def)
  then show ?thesis
    using c dead_end_removes_front [of ?st 1] by (simp add: always_def)
qed

section \<open>Termination of the growth loop\<close>

text \<open>
  The loop of \<^verbatim>\<open>grow\<close> cut off after a number of iterations: \<open>grow_steps n\<close> runs at
  most \<open>n\<close> iterations and returns the state reached.
\<close>

fun grow_steps :: "nat \<Rightarrow> region \<Rightarrow> grow_state \<Rightarrow> error + grow_state" where
  "grow_steps 0 reg st = Inr st"
| "grow_steps (Suc n) reg st =
     (if length (cells st) > 0 then
        (case grow_iter reg st of Inl e \<Rightarrow> Inl e | Inr st' \<Rightarrow> grow_steps n reg st')
      else Inr st)"

text \<open>The invariant of the loop: a well-formed grid and active cells inside its bounds.\<close>

definition grow_inv :: "grow_state \<Rightarrow> bool" where
  "grow_inv st \<longleftrightarrow>
     wf_grid (grid_of st) \<and> (\<forall>c\<in>set (cells st). pt_In c (Bounds (grid_of st)))"

lemma unmade_dirs_total:
  assumes "wf_grid g" "pt_In c (Bounds g)"
  shows "set ds \<subseteq> set Dirs \<Longrightarrow> \<exists>un. unmade_dirs g c ds acc = Inr un"
proof (induction ds arbitrary: acc)
  case Nil
  then show ?case by simp
next
  case (Cons d ds)
  then have "d \<in> set Dirs" by simp
  from canCarve_offsets [OF assms this] Cons show ?case by simp
qed

lemma SetMaterial_wf:
  assumes "wf_grid g" "pt_In p (Bounds g)"
  shows "\<exists>g'. SetMaterial g p m = Inr g' \<and> wf_grid g' \<and> Size g' = Size g \<and>
           regCount g' = regCount g"
  using index_in_bounds [OF assms] assms(1)
  by (simp add: SetMaterial_def wf_grid_def)

lemma SetRegion_wf:
  assumes "wf_grid g" "pt_In p (Bounds g)"
  shows "\<exists>g'. SetRegion g p r = Inr g' \<and> wf_grid g' \<and> Size g' = Size g \<and>
           regCount g' = regCount g"
  using index_in_bounds [OF assms] assms(1)
  by (simp add: SetRegion_def wf_grid_def)

lemma Bounds_Size: "Size g' = Size g \<Longrightarrow> Bounds g' = Bounds g"
  by (simp add: Bounds_def)

lemma carve_ok:
  assumes "wf_grid g" "pt_In p (Bounds g)" "pt_In q (Bounds g)"
  shows "\<exists>g4. and_then (SetMaterial g p Carved) (\<lambda>g1.
           and_then (SetRegion g1 p reg) (\<lambda>g2.
           and_then (SetMaterial g2 q Carved) (\<lambda>g3.
           and_then (SetRegion g3 q reg) (\<lambda>g4. f g4)))) = f g4 \<and>
         wf_grid g4 \<and> Size g4 = Size g \<and> regCount g4 = regCount g"
proof -
  from SetMaterial_wf [OF assms(1,2)] obtain g1 where
    g1: "SetMaterial g p Carved = Inr g1" "wf_grid g1" "Size g1 = Size g" "regCount g1 = regCount g"
    by blast
  have b1: "Bounds g1 = Bounds g" using g1(3) by (rule Bounds_Size)
  from SetRegion_wf [OF g1(2), of p reg] assms(2) b1 obtain g2 where
    g2: "SetRegion g1 p reg = Inr g2" "wf_grid g2" "Size g2 = Size g1" "regCount g2 = regCount g1"
    by auto
  have b2: "Bounds g2 = Bounds g" using g2(3) g1(3) by (simp add: Bounds_def)
  from SetMaterial_wf [OF g2(2), of q Carved] assms(3) b2 obtain g3 where
    g3: "SetMaterial g2 q Carved = Inr g3" "wf_grid g3" "Size g3 = Size g2" "regCount g3 = regCount g2"
    by auto
  have b3: "Bounds g3 = Bounds g" using g3(3) g2(3) g1(3) by (simp add: Bounds_def)
  from SetRegion_wf [OF g3(2), of q reg] assms(3) b3 obtain g4 where
    g4: "SetRegion g3 q reg = Inr g4" "wf_grid g4" "Size g4 = Size g3" "regCount g4 = regCount g3"
    by auto
  show ?thesis
    using g1 g2 g3 g4 by (intro exI [of _ g4]) simp
qed

lemma grow_iter_ok:
  assumes "grow_inv st" "cells st \<noteq> []"
  shows "\<exists>st'. grow_iter reg st = Inr st' \<and> grow_inv st' \<and>
           Size (grid_of st') = Size (grid_of st) \<and> regCount (grid_of st') = regCount (grid_of st)"
proof -
  let ?g = "grid_of st"
  define k where "k = int (rand st 0 mod length (cells st))"
  define rs1 where "rs1 = (\<lambda>i. rand st (Suc i))"
  define c where "c = cells st ! nat k"
  have wf: "wf_grid ?g" using assms(1) by (simp add: grow_inv_def)
  have k: "Intn (int (length (cells st))) (rand st) = Inr (k, rs1)"
    using assms(2) by (simp add: Intn_def k_def rs1_def)
  have "nat k < length (cells st)" using assms(2) by (simp add: k_def)
  then have "c \<in> set (cells st)" by (simp add: c_def)
  then have cb: "pt_In c (Bounds ?g)" using assms(1) by (simp add: grow_inv_def)
  from unmade_dirs_total [OF wf cb, of Dirs "[]"] obtain un where
    un: "unmade_dirs ?g c Dirs [] = Inr un" by auto
  show ?thesis
  proof (cases "un = []")
    case True
    have "set (tl (cells st)) \<subseteq> set (cells st)" using assms(2) by (cases "cells st") auto
    then have "grow_inv \<lparr>grid_of = ?g, cells = tl (cells st), rand = rs1\<rparr>"
      using assms(1) by (auto simp: grow_inv_def)
    then show ?thesis using k un True by (simp add: grow_iter_def c_def)
  next
    case False
    define j where "j = int (rs1 0 mod length un)"
    define rs2 where "rs2 = (\<lambda>i. rs1 (Suc i))"
    define d where "d = un ! nat j"
    have j: "Intn (int (length un)) rs1 = Inr (j, rs2)"
      using False by (simp add: Intn_def j_def rs2_def)
    have "nat j < length un" using False by (simp add: j_def)
    then have "d \<in> set un" by (simp add: d_def)
    from unmade_dirs_sound [OF un this] have dD: "d \<in> set Dirs" and cc: "canCarve ?g c d = Inr True"
      by simp_all
    from cc have b3: "pt_In (offset c d 3) (Bounds ?g)"
      by (simp add: canCarve_offsets [OF wf cb dD])
    note b12 = offset_between [OF wf cb b3 dD]
    note off = AddDir_offsets [OF wf cb dD]
    let ?f = "\<lambda>g4. Inr \<lparr>grid_of = g4, cells = cells st @ [offset c d 2], rand = rs2\<rparr>"
    from carve_ok [OF wf b12, of reg ?f] obtain g4 where
      g4: "and_then (SetMaterial ?g (offset c d 1) Carved) (\<lambda>g1.
           and_then (SetRegion g1 (offset c d 1) reg) (\<lambda>g2.
           and_then (SetMaterial g2 (offset c d 2) Carved) (\<lambda>g3.
           and_then (SetRegion g3 (offset c d 2) reg) (\<lambda>g4. ?f g4)))) = ?f g4"
      and wf4: "wf_grid g4" and s4: "Size g4 = Size ?g" and r4: "regCount g4 = regCount ?g"
      by blast
    have eq: "grow_iter reg st = ?f g4"
      using k un False j g4 by (simp add: grow_iter_def c_def [symmetric] d_def [symmetric] off)
    have "Bounds g4 = Bounds ?g" using s4 by (rule Bounds_Size)
    then have "grow_inv \<lparr>grid_of = g4, cells = cells st @ [offset c d 2], rand = rs2\<rparr>"
      using assms(1) wf4 b12 by (auto simp: grow_inv_def)
    then show ?thesis using eq s4 r4 by simp
  qed
qed

lemma grow_loop_ok:
  "grow_inv st \<Longrightarrow>
   \<exists>n st'. n \<le> 2 * rocks (grid_of st) + length (cells st) \<and>
     grow_steps n reg st = Inr st' \<and> grow_loop reg st = Inr st' \<and> cells st' = [] \<and>
     wf_grid (grid_of st') \<and> Size (grid_of st') = Size (grid_of st) \<and>
     regCount (grid_of st') = regCount (grid_of st)"
proof (induction reg st rule: grow_loop.induct)
  case (1 reg st)
  show ?case
  proof (cases "cells st = []")
    case True
    have "grow_steps 0 reg st = Inr st" by simp
    moreover have "grow_loop reg st = Inr st" using True by (subst grow_loop.simps) simp
    moreover have "wf_grid (grid_of st)" using "1.prems" by (simp add: grow_inv_def)
    ultimately show ?thesis using True by (intro exI [of _ 0] exI [of _ st]) simp
  next
    case False
    from grow_iter_ok [OF "1.prems" False, of reg] obtain st1 where
      it: "grow_iter reg st = Inr st1" and inv1: "grow_inv st1"
      and sz: "Size (grid_of st1) = Size (grid_of st)"
      and rc: "regCount (grid_of st1) = regCount (grid_of st)" by blast
    from False have pos: "0 < length (cells st)" by simp
    from "1.IH" [OF pos it inv1] obtain n st' where
      n: "n \<le> 2 * rocks (grid_of st1) + length (cells st1)"
      and steps: "grow_steps n reg st1 = Inr st'" and loop: "grow_loop reg st1 = Inr st'"
      and rest: "cells st' = []" "wf_grid (grid_of st')" "Size (grid_of st') = Size (grid_of st1)"
        "regCount (grid_of st') = regCount (grid_of st1)"
      by blast
    have "Suc n \<le> 2 * rocks (grid_of st) + length (cells st)"
      using n grow_iter_decreases [OF it False] by simp
    moreover have "grow_steps (Suc n) reg st = Inr st'" using pos it steps by simp
    moreover have "grow_loop reg st = Inr st'" using pos it loop by (subst grow_loop.simps) simp
    ultimately show ?thesis using rest sz rc by (intro exI [of _ "Suc n"] exI [of _ st']) simp
  qed
qed

text \<open>
  C8. On a well-formed grid and from a start inside the bounds, whatever the random
  source, the loop of \<open>grow\<close> ends without a panic and with no active cell left, after at
  most \<open>2 * rocks g + 1\<close> iterations. Each iteration either turns at least one Rock entry
  into Carved and adds one active cell, or leaves the grid as it is and removes one
  active cell.
\<close>

theorem grow_terminates:
  assumes "wf_grid g" and "pt_In start (Bounds g)"
  shows "(\<exists>n st'. n \<le> 2 * rocks g + 1 \<and>
            grow_steps n reg \<lparr>grid_of = g, cells = [start], rand = rs\<rparr> = Inr st' \<and>
            cells st' = [] \<and>
            grow_loop reg \<lparr>grid_of = g, cells = [start], rand = rs\<rparr> = Inr st' \<and>
            grow g start reg rs = Inr (grid_of st', rand st')) \<and>
         (\<forall>st st'. cells st \<noteq> [] \<and> grow_iter reg st = Inr st' \<longrightarrow>
            rocks (grid_of st') < rocks (grid_of st) \<and>
              length (cells st') = length (cells st) + 1 \<or>
            grid_of st' = grid_of st \<and> length (cells st') + 1 = length (cells st))"
proof (intro conjI allI impI)
  let ?st = "\<lparr>grid_of = g, cells = [start], rand = rs\<rparr>"
  have "grow_inv ?st" using assms by (simp add: grow_inv_def)
  from grow_loop_ok [OF this, of reg] obtain n st' where
    "n \<le> 2 * rocks g + 1" "grow_steps n reg ?st = Inr st'" "grow_loop reg ?st = Inr st'"
    "cells st' = []" by auto
  then show "\<exists>n st'. n \<le> 2 * rocks g + 1 \<and> grow_steps n reg ?st = Inr st' \<and> cells st' = [] \<and>
      grow_loop reg ?st = Inr st' \<and> grow g start reg rs = Inr (grid_of st', rand st')"
    by (intro exI [of _ n] exI [of _ st']) (simp add: grow_def)
next
  fix st st'
  assume "cells st \<noteq> [] \<and> grow_iter reg st = Inr st'"
  then show "rocks (grid_of st') < rocks (grid_of st) \<and>
              length (cells st') = length (cells st) + 1 \<or>
            grid_of st' = grid_of st \<and> length (cells st') + 1 = length (cells st)"
    using grow_iter_progress [of reg st st'] by simp
qed

theorem grow_terminates_witness:
  "wf_grid grid5x3 \<and> pt_In (Pt 1 1) (Bounds grid5x3) \<and>
   (\<exists>n st'. n \<le> 31 \<and>
      grow_steps n 1 \<lparr>grid_of = grid5x3, cells = [Pt 1 1], rand = (always 0)\<rparr> = Inr st' \<and>
      cells st' = [] \<and>
      grow grid5x3 (Pt 1 1) 1 (always 0) = Inr (grid_of st', rand st'))"
proof -
  have b: "pt_In (Pt 1 1) (Bounds grid5x3)"
    by (simp add: pt_In_def Bounds_grid5x3 Pt_def)
  have r: "rocks grid5x3 = 15"
    by (simp add: rocks_def grid5x3_def)
  from grow_terminates [OF wf_grid5x3 b, of 1 "always 0"] obtain n st' where
    "n \<le> 2 * rocks grid5x3 + 1"
    "grow_steps n 1 \<lparr>grid_of = grid5x3, cells = [Pt 1 1], rand = (always 0)\<rparr> = Inr st'"
    "cells st' = []" "grow grid5x3 (Pt 1 1) 1 (always 0) = Inr (grid_of st', rand st')"
    by blast
  then show ?thesis using b wf_grid5x3 r by auto
qed

section \<open>The passes of growMaze\<close>

lemma range2_eq: "range2 v hi = filter (\<lambda>i. even (i - v)) [v..hi - 1]"
proof (induction v hi rule: range2.induct)
  case (1 v hi)
  show ?case
  proof (cases "v < hi")
    case True
    have "[v..hi - 1] = v # (v + 1) # [v + 2..hi - 1]" if "v + 1 < hi"
    proof -
      have e: "v + 1 + 1 = v + 2" by simp
      have "v \<le> hi - 1" "v + 1 \<le> hi - 1" using that by simp_all
      then have "[v..hi - 1] = v # [v + 1..hi - 1]" "[v + 1..hi - 1] = (v + 1) # [v + 2..hi - 1]"
        using upto_rec1 [of v "hi - 1"] upto_rec1 [of "v + 1" "hi - 1"] unfolding e by blast+
      then show ?thesis by (simp only:)
    qed
    moreover have "[v..hi - 1] = [v]" "[v + 2..hi - 1] = []" if "\<not> v + 1 < hi"
      using that True by (simp_all add: upto_rec1)
    moreover have "filter (\<lambda>i. even (i - (v + 2))) xs = filter (\<lambda>i. even (i - v)) xs" for xs
      by (intro filter_cong) auto
    ultimately show ?thesis using True 1
      by (subst range2.simps) (cases "v + 1 < hi"; simp)
  next
    case False
    then show ?thesis by (subst range2.simps) simp
  qed
qed

lemma range2_odds: "0 \<le> hi \<Longrightarrow> range2 1 hi = filter odd [0..hi - 1]"
proof -
  assume "0 \<le> hi"
  then have "[0..hi - 1] = (if hi = 0 then [] else 0 # [1..hi - 1])"
    by (simp add: upto_rec1)
  then show ?thesis by (simp add: range2_eq)
qed

lemma Bounds_wf_eq:
  "wf_grid g \<Longrightarrow> Bounds g = \<lparr>Min_r = Pt 0 0, Max_r = Pt (X (Size g)) (Y (Size g))\<rparr>"
  by (simp add: wf_grid_def Bounds_def Rect_def)

lemma NewRegion_wf:
  "wf_grid g \<Longrightarrow> wf_grid (snd (NewRegion g)) \<and> Size (snd (NewRegion g)) = Size g"
  by (simp add: NewRegion_def wf_grid_def Let_def)

lemma grow_ok:
  assumes "wf_grid g" "pt_In p (Bounds g)"
  shows "\<exists>g' rs'. grow g p reg rs = Inr (g', rs') \<and> wf_grid g' \<and> Size g' = Size g \<and>
           regCount g' = regCount g"
proof -
  have "grow_inv \<lparr>grid_of = g, cells = [p], rand = rs\<rparr>" using assms by (simp add: grow_inv_def)
  from grow_loop_ok [OF this, of reg] show ?thesis by (auto simp: grow_def)
qed

lemma grow_row_log_ok:
  assumes "0 \<le> y" "y < Y (Size g0)"
  shows "wf_grid g \<Longrightarrow> Size g = Size g0 \<Longrightarrow> \<forall>x\<in>set xs. 0 \<le> x \<and> x < X (Size g0) \<Longrightarrow>
    \<exists>g' rs' ps. grow_row_log reg y xs ((g, rs), tr) = Inr ((g', rs'), tr @ ps) \<and>
      grow_row reg y xs (g, rs) = Inr (g', rs') \<and>
      map fst ps = map (\<lambda>x. Pt x y) xs \<and> wf_grid g' \<and> Size g' = Size g0"
proof (induction xs arbitrary: g rs tr)
  case Nil
  then show ?case by simp
next
  case (Cons x xs)
  have "pt_In (Pt x y) (Bounds g)"
    using Cons.prems assms by (simp add: Bounds_wf Pt_def)
  from grow_ok [OF Cons.prems(1) this, of reg rs] obtain g1 rs1 where
    g1: "grow g (Pt x y) reg rs = Inr (g1, rs1)" "wf_grid g1" "Size g1 = Size g" by blast
  have "\<exists>g' rs' ps. grow_row_log reg y xs ((g1, rs1), tr @ [(Pt x y, At g (Pt x y))]) =
      Inr ((g', rs'), (tr @ [(Pt x y, At g (Pt x y))]) @ ps) \<and>
      grow_row reg y xs (g1, rs1) = Inr (g', rs') \<and>
      map fst ps = map (\<lambda>x. Pt x y) xs \<and> wf_grid g' \<and> Size g' = Size g0"
    using g1 Cons.prems by (intro Cons.IH) simp_all
  then obtain g' rs' ps where
    "grow_row_log reg y xs ((g1, rs1), tr @ [(Pt x y, At g (Pt x y))]) =
      Inr ((g', rs'), tr @ (Pt x y, At g (Pt x y)) # ps)"
    "grow_row reg y xs (g1, rs1) = Inr (g', rs')"
    "map fst ps = map (\<lambda>x. Pt x y) xs" "wf_grid g'" "Size g' = Size g0"
    by auto
  then show ?case using g1
    by (intro exI [of _ g'] exI [of _ rs'] exI [of _ "(Pt x y, At g (Pt x y)) # ps"]) simp
qed

lemma grow_rows_log_ok:
  assumes "\<forall>x\<in>set xs. 0 \<le> x \<and> x < X (Size g0)"
  shows "wf_grid g \<Longrightarrow> Size g = Size g0 \<Longrightarrow> \<forall>y\<in>set ys. 0 \<le> y \<and> y < Y (Size g0) \<Longrightarrow>
    \<exists>g' rs' ps. grow_rows_log reg ys xs ((g, rs), tr) = Inr ((g', rs'), tr @ ps) \<and>
      grow_rows reg ys xs (g, rs) = Inr (g', rs') \<and>
      map fst ps = concat (map (\<lambda>y. map (\<lambda>x. Pt x y) xs) ys) \<and> wf_grid g' \<and> Size g' = Size g0"
proof (induction ys arbitrary: g rs tr)
  case Nil
  then show ?case by simp
next
  case (Cons y ys)
  have y: "0 \<le> y" "y < Y (Size g0)" using Cons.prems by simp_all
  from grow_row_log_ok [OF y Cons.prems(1,2) assms, of reg rs tr] obtain g1 rs1 ps1 where
    g1: "grow_row_log reg y xs ((g, rs), tr) = Inr ((g1, rs1), tr @ ps1)"
      "grow_row reg y xs (g, rs) = Inr (g1, rs1)"
      "map fst ps1 = map (\<lambda>x. Pt x y) xs" "wf_grid g1" "Size g1 = Size g0"
    by blast
  have "\<exists>g' rs' ps. grow_rows_log reg ys xs ((g1, rs1), tr @ ps1) = Inr ((g', rs'), (tr @ ps1) @ ps) \<and>
      grow_rows reg ys xs (g1, rs1) = Inr (g', rs') \<and>
      map fst ps = concat (map (\<lambda>y. map (\<lambda>x. Pt x y) xs) ys) \<and> wf_grid g' \<and> Size g' = Size g0"
    using g1 Cons.prems by (intro Cons.IH) simp_all
  then obtain g' rs' ps where
    "grow_rows_log reg ys xs ((g1, rs1), tr @ ps1) = Inr ((g', rs'), tr @ ps1 @ ps)"
    "grow_rows reg ys xs (g1, rs1) = Inr (g', rs')"
    "map fst ps = concat (map (\<lambda>y. map (\<lambda>x. Pt x y) xs) ys)" "wf_grid g'" "Size g' = Size g0"
    by auto
  then show ?case using g1
    by (intro exI [of _ g'] exI [of _ rs'] exI [of _ "ps1 @ ps"]) simp
qed

lemma range2_examples: "range2 1 5 = [1, 3]" "range2 1 3 = [1]"
  by (simp_all add: range2.simps)

text \<open>
  C2 as stated fails. On the grid of 5 by 3 cells whose lattice point \<open>(1, 1)\<close> is
  already Carved, \<open>growMaze\<close> runs two passes and both are seeded at a Carved point: the
  first at \<open>(1, 1)\<close>, from where it carves \<open>(2, 1)\<close> and \<open>(3, 1)\<close>, the second at
  \<open>(3, 1)\<close>.
\<close>

theorem growMaze_seeds_carved_point:
  "At grid5x3_carved (Pt 1 1) = Inr Carved \<and>
   growMaze_log grid5x3_carved (always 0) =
     Inr ((\<lparr>g_arr = [Rock, Rock, Rock, Rock, Rock,
                      Rock, Carved, Carved, Carved, Rock,
                      Rock, Rock, Rock, Rock, Rock], Size = Pt 5 3,
             regions = [0, 0, 0, 0, 0,
                        0, 1, 2, 2, 0,
                        0, 0, 0, 0, 0], regCount = 2\<rparr>, always 0),
          [(Pt 1 1, Inr Carved), (Pt 3 1, Inr Carved)])"
  by (simp add: growMaze_log_def NewRegion_def range2_examples grow_def grow_loop.simps
      grow_iter_def Intn_always Dirs_points canCarve_def AddDir_Pt Pt_def pt_In_def At_def index_def
      SetMaterial_def SetRegion_def grid5x3_carved_def Bounds_def Rect_def)

text \<open>
  C2, as amended. On a well-formed grid \<open>growMaze\<close> runs one growth pass at every odd
  lattice point inside the bounds, in row-major order, whatever the material at that
  point, and none of the passes panics.
\<close>

theorem growMaze_seeds_every_lattice_point:
  assumes "wf_grid g"
  shows "\<exists>g' rs' ps. growMaze_log g rs = Inr ((g', rs'), ps) \<and>
           growMaze g rs = Inr (g', rs') \<and> map fst ps = lattice g"
proof -
  let ?g1 = "snd (NewRegion g)" and ?reg = "fst (NewRegion g)"
  let ?xs = "filter odd [0..X (Size g) - 1]" and ?ys = "filter odd [0..Y (Size g) - 1]"
  have sz: "0 \<le> X (Size g)" "0 \<le> Y (Size g)" using assms by (simp_all add: wf_grid_def)
  have log: "growMaze_log g rs = grow_rows_log ?reg ?ys ?xs ((?g1, rs), [])"
    and run: "growMaze g rs = grow_rows ?reg ?ys ?xs (?g1, rs)"
    using sz by (simp_all add: growMaze_log_def growMaze_def Bounds_wf_eq [OF assms] Let_def
        split_beta Pt_def range2_odds)
  have xs: "\<forall>x\<in>set ?xs. 0 \<le> x \<and> x < X (Size g)" and ys: "\<forall>y\<in>set ?ys. 0 \<le> y \<and> y < Y (Size g)"
    by auto
  from NewRegion_wf [OF assms] have "wf_grid ?g1" "Size ?g1 = Size g" by simp_all
  from grow_rows_log_ok [OF xs this ys, of ?reg rs "[]"] show ?thesis
    unfolding log run lattice_def by auto
qed

theorem growMaze_seeds_every_lattice_point_witness:
  "wf_grid grid5x3_carved \<and>
   (\<exists>g' rs' ps. growMaze_log grid5x3_carved (always 0) = Inr ((g', rs'), ps) \<and>
      growMaze grid5x3_carved (always 0) = Inr (g', rs') \<and> map fst ps = [Pt 1 1, Pt 3 1])"
proof -
  have wf: "wf_grid grid5x3_carved"
    by (simp add: wf_grid_def grid5x3_carved_def Pt_def)
  have "lattice grid5x3_carved = [Pt 1 1, Pt 3 1]"
    by (simp add: lattice_def grid5x3_carved_def Pt_def upto_rec1)
  then show ?thesis
    using growMaze_seeds_every_lattice_point [OF wf, of "always 0"] wf by simp
qed

section \<open>Connectors of a well-formed grid\<close>

text \<open>
  The entries read at a point, and the records that \<open>findConnectors\<close> adds for one
  direction and for one cell when no access panics.
\<close>

definition mat_at :: "grid \<Rightarrow> point \<Rightarrow> material" where
  "mat_at g p = g_arr g ! nat (index g p)"

definition reg_at :: "grid \<Rightarrow> point \<Rightarrow> region" where
  "reg_at g p = regions g ! nat (index g p)"

definition dir_conns :: "grid \<Rightarrow> point \<Rightarrow> direction \<Rightarrow> connector list" where
  "dir_conns g here d =
     (let a = AddDir here d; b = AddDir here (Reverse d) in
      if mat_at g a \<noteq> Rock \<and> mat_at g b \<noteq> Rock \<and> reg_at g a \<noteq> reg_at g b
      then [\<lparr>conn_a = \<lparr>c_dir = d, c_region = reg_at g a\<rparr>,
             conn_b = \<lparr>c_dir = Reverse d, c_region = reg_at g b\<rparr>, loc = here\<rparr>]
      else [])"

definition cell_conns :: "grid \<Rightarrow> point \<Rightarrow> connector list" where
  "cell_conns g here =
     (if mat_at g here = Rock then concat (map (dir_conns g here) Dirs) else [])"

definition interior :: "grid \<Rightarrow> point \<Rightarrow> bool" where
  "interior g p \<longleftrightarrow>
     2 \<le> X p \<and> X p \<le> X (Size g) - 3 \<and> 2 \<le> Y p \<and> Y p \<le> Y (Size g) - 3"

text \<open>The connector with its two sides exchanged.\<close>

definition mirror :: "connector \<Rightarrow> connector" where
  "mirror c = \<lparr>conn_a = conn_b c, conn_b = conn_a c, loc = loc c\<rparr>"

lemma range1_eq: "range1 v hi = [v..hi - 1]"
proof (induction v hi rule: range1.induct)
  case (1 v hi)
  show ?case
  proof (cases "v < hi")
    case True
    then have "[v..hi - 1] = v # [v + 1..hi - 1]" by (simp add: upto_rec1)
    with True 1 show ?thesis by (subst range1.simps) simp
  next
    case False
    then show ?thesis by (subst range1.simps) simp
  qed
qed

lemma Reverse_Dirs:
  assumes "d \<in> set Dirs"
  shows "Reverse d \<in> set Dirs" and "Reverse (Reverse d) = d"
    and "X (Reverse d) = - X d" and "Y (Reverse d) = - Y d"
  using assms by (auto simp: Dirs_points Reverse_def Mul_def Pt_def)

lemma At_mat:
  assumes "wf_grid g" "pt_In p (Bounds g)"
  shows "At g p = Inr (mat_at g p)" and "RegionAt g p = Inr (reg_at g p)"
  using index_in_bounds [OF assms] assms(1)
  by (simp_all add: At_def RegionAt_def mat_at_def reg_at_def wf_grid_def)

lemma interior_in_bounds: "wf_grid g \<Longrightarrow> interior g p \<Longrightarrow> pt_In p (Bounds g)"
  by (simp add: Bounds_wf interior_def)

lemma interior_bounds:
  assumes "wf_grid g" "interior g p" "d \<in> set Dirs"
  shows "pt_In p (Bounds g)" and "pt_In (AddDir p d) (Bounds g)"
proof -
  show b: "pt_In p (Bounds g)"
    using assms(1,2) by (rule interior_in_bounds)
  have "pt_In (offset p d 1) (Bounds g)"
    using assms(2,3) by (auto simp: Bounds_wf [OF assms(1)] interior_def offset_def Pt_def
        elim!: Dirs_cases)
  then show "pt_In (AddDir p d) (Bounds g)"
    by (simp add: AddDir_offsets(1) [OF assms(1) b assms(3)])
qed

lemma connect_dir_wf:
  assumes "wf_grid g" "interior g here" "d \<in> set Dirs"
  shows "connect_dir g here d conns = Inr (conns @ dir_conns g here d)"
proof -
  have a: "pt_In (AddDir here d) (Bounds g)" using assms by (rule interior_bounds(2))
  have b: "pt_In (AddDir here (Reverse d)) (Bounds g)"
    using assms(1,2) Reverse_Dirs(1) [OF assms(3)] by (rule interior_bounds(2))
  show ?thesis
    by (simp add: connect_dir_def dir_conns_def Let_def At_mat [OF assms(1) a]
        At_mat [OF assms(1) b])
qed

lemma connect_dirs_wf:
  assumes "wf_grid g" "interior g here"
  shows "set ds \<subseteq> set Dirs \<Longrightarrow>
    connect_dirs g here ds conns = Inr (conns @ concat (map (dir_conns g here) ds))"
  by (induction ds arbitrary: conns) (simp_all add: connect_dir_wf [OF assms])

lemma connect_cell_wf:
  assumes "wf_grid g" "interior g here"
  shows "connect_cell g here conns = Inr (conns @ cell_conns g here)"
  using interior_in_bounds [OF assms] connect_dirs_wf [OF assms, of Dirs conns]
  by (simp add: connect_cell_def cell_conns_def At_mat(1) [OF assms(1)])

lemma connect_row_wf:
  assumes "wf_grid g"
  shows "\<forall>x\<in>set xs. interior g (Pt x y) \<Longrightarrow>
    connect_row g y xs conns = Inr (conns @ concat (map (\<lambda>x. cell_conns g (Pt x y)) xs))"
  by (induction xs arbitrary: conns) (simp_all add: connect_cell_wf [OF assms])

lemma connect_rows_wf:
  assumes "wf_grid g"
  shows "\<forall>y\<in>set ys. \<forall>x\<in>set xs. interior g (Pt x y) \<Longrightarrow>
    connect_rows g ys xs conns =
      Inr (conns @ concat (map (\<lambda>y. concat (map (\<lambda>x. cell_conns g (Pt x y)) xs)) ys))"
  by (induction ys arbitrary: conns) (simp_all add: connect_row_wf [OF assms])

lemma findConnectors_wf:
  assumes "wf_grid g"
  shows "findConnectors g =
    Inr (concat (map (\<lambda>y. concat (map (\<lambda>x. cell_conns g (Pt x y)) [2..X (Size g) - 3]))
      [2..Y (Size g) - 3]))"
proof -
  have "\<forall>y\<in>set [2..Y (Size g) - 3]. \<forall>x\<in>set [2..X (Size g) - 3]. interior g (Pt x y)"
    by (simp add: interior_def Pt_def)
  from connect_rows_wf [OF assms this, of "[]"] show ?thesis
    by (simp add: findConnectors_def Bounds_wf_eq [OF assms] Pt_def range1_eq)
qed

lemma findConnectors_member:
  assumes "wf_grid g" "findConnectors g = Inr cs"
  shows "c \<in> set cs \<longleftrightarrow> interior g (loc c) \<and> c \<in> set (cell_conns g (loc c))"
proof -
  have loc: "loc c = p" if "c \<in> set (cell_conns g p)" for p
    using that by (auto simp: cell_conns_def dir_conns_def Let_def split: if_splits)
  have "c \<in> set cs \<longleftrightarrow>
    (\<exists>y\<in>{2..Y (Size g) - 3}. \<exists>x\<in>{2..X (Size g) - 3}. c \<in> set (cell_conns g (Pt x y)))"
    using assms(2) unfolding findConnectors_wf [OF assms(1)] by fastforce
  also have "\<dots> \<longleftrightarrow> interior g (loc c) \<and> c \<in> set (cell_conns g (loc c))"
  proof
    assume "\<exists>y\<in>{2..Y (Size g) - 3}. \<exists>x\<in>{2..X (Size g) - 3}. c \<in> set (cell_conns g (Pt x y))"
    then obtain x y where xy: "2 \<le> y" "y \<le> Y (Size g) - 3" "2 \<le> x" "x \<le> X (Size g) - 3"
      and c: "c \<in> set (cell_conns g (Pt x y))" by auto
    from loc [OF c] xy c show "interior g (loc c) \<and> c \<in> set (cell_conns g (loc c))"
      by (simp add: interior_def Pt_def)
  next
    assume a: "interior g (loc c) \<and> c \<in> set (cell_conns g (loc c))"
    have "Pt (X (loc c)) (Y (loc c)) = loc c" by (simp add: Pt_def)
    with a show "\<exists>y\<in>{2..Y (Size g) - 3}. \<exists>x\<in>{2..X (Size g) - 3}. c \<in> set (cell_conns g (Pt x y))"
      by (intro bexI [of _ "Y (loc c)"] bexI [of _ "X (loc c)"]) (simp_all add: interior_def)
  qed
  finally show ?thesis .
qed

lemma cell_conns_member:
  "c \<in> set (cell_conns g p) \<longleftrightarrow>
     mat_at g p = Rock \<and> c_dir (conn_a c) \<in> set Dirs \<and>
     c \<in> set (dir_conns g p (c_dir (conn_a c)))"
  by (auto simp: cell_conns_def dir_conns_def Let_def split: if_splits)

lemma dir_conns_member:
  "c \<in> set (dir_conns g p d) \<longleftrightarrow>
     mat_at g (AddDir p d) \<noteq> Rock \<and> mat_at g (AddDir p (Reverse d)) \<noteq> Rock \<and>
     reg_at g (AddDir p d) \<noteq> reg_at g (AddDir p (Reverse d)) \<and>
     c = \<lparr>conn_a = \<lparr>c_dir = d, c_region = reg_at g (AddDir p d)\<rparr>,
          conn_b = \<lparr>c_dir = Reverse d, c_region = reg_at g (AddDir p (Reverse d))\<rparr>, loc = p\<rparr>"
  by (auto simp: dir_conns_def Let_def)

text \<open>
  C7. On a well-formed grid \<open>findConnectors\<close> returns without a panic, and every record it
  returns has a Rock location with both coordinates at least 2 and at most the size minus
  3, two cells next to the location in the recorded directions (a direction of \<open>Dirs\<close>
  and its reverse) that are not Rock, and the region ids of these two cells, which differ.
\<close>

theorem findConnectors_sound:
  assumes "wf_grid g"
  shows "\<exists>cs. findConnectors g = Inr cs \<and>
    (\<forall>c\<in>set cs.
       At g (loc c) = Inr Rock \<and>
       2 \<le> X (loc c) \<and> X (loc c) \<le> X (Size g) - 3 \<and>
       2 \<le> Y (loc c) \<and> Y (loc c) \<le> Y (Size g) - 3 \<and>
       c_dir (conn_a c) \<in> set Dirs \<and> c_dir (conn_b c) = Reverse (c_dir (conn_a c)) \<and>
       (\<exists>m. At g (AddDir (loc c) (c_dir (conn_a c))) = Inr m \<and> m \<noteq> Rock) \<and>
       (\<exists>m. At g (AddDir (loc c) (c_dir (conn_b c))) = Inr m \<and> m \<noteq> Rock) \<and>
       RegionAt g (AddDir (loc c) (c_dir (conn_a c))) = Inr (c_region (conn_a c)) \<and>
       RegionAt g (AddDir (loc c) (c_dir (conn_b c))) = Inr (c_region (conn_b c)) \<and>
       c_region (conn_a c) \<noteq> c_region (conn_b c))"
proof -
  from findConnectors_wf [OF assms] obtain cs where cs: "findConnectors g = Inr cs" by blast
  have "At g (loc c) = Inr Rock \<and>
       2 \<le> X (loc c) \<and> X (loc c) \<le> X (Size g) - 3 \<and>
       2 \<le> Y (loc c) \<and> Y (loc c) \<le> Y (Size g) - 3 \<and>
       c_dir (conn_a c) \<in> set Dirs \<and> c_dir (conn_b c) = Reverse (c_dir (conn_a c)) \<and>
       (\<exists>m. At g (AddDir (loc c) (c_dir (conn_a c))) = Inr m \<and> m \<noteq> Rock) \<and>
       (\<exists>m. At g (AddDir (loc c) (c_dir (conn_b c))) = Inr m \<and> m \<noteq> Rock) \<and>
       RegionAt g (AddDir (loc c) (c_dir (conn_a c))) = Inr (c_region (conn_a c)) \<and>
       RegionAt g (AddDir (loc c) (c_dir (conn_b c))) = Inr (c_region (conn_b c)) \<and>
       c_region (conn_a c) \<noteq> c_region (conn_b c)" if "c \<in> set cs" for c
  proof -
    let ?p = "loc c" and ?d = "c_dir (conn_a c)"
    from that have int: "interior g ?p" and cell: "c \<in> set (cell_conns g ?p)"
      by (simp_all add: findConnectors_member [OF assms cs])
    from cell have rock: "mat_at g ?p = Rock" and d: "?d \<in> set Dirs"
      and dc: "c \<in> set (dir_conns g ?p ?d)"
      by (simp_all add: cell_conns_member)
    from dc have ma: "mat_at g (AddDir ?p ?d) \<noteq> Rock"
      and mb: "mat_at g (AddDir ?p (Reverse ?d)) \<noteq> Rock"
      and ne: "reg_at g (AddDir ?p ?d) \<noteq> reg_at g (AddDir ?p (Reverse ?d))"
      and c: "c = \<lparr>conn_a = \<lparr>c_dir = ?d, c_region = reg_at g (AddDir ?p ?d)\<rparr>,
          conn_b = \<lparr>c_dir = Reverse ?d, c_region = reg_at g (AddDir ?p (Reverse ?d))\<rparr>, loc = ?p\<rparr>"
      by (simp_all add: dir_conns_member)
    have bd: "c_dir (conn_b c) = Reverse ?d" by (subst c) simp
    have ra: "c_region (conn_a c) = reg_at g (AddDir ?p ?d)" by (subst c) simp
    have rb: "c_region (conn_b c) = reg_at g (AddDir ?p (Reverse ?d))" by (subst c) simp
    note here = interior_bounds(1) [OF assms int d]
    note a = interior_bounds(2) [OF assms int d]
    note b = interior_bounds(2) [OF assms int Reverse_Dirs(1) [OF d]]
    show ?thesis
      using int d rock ma mb ne
      by (simp add: bd ra rb At_mat [OF assms here] At_mat [OF assms a] At_mat [OF assms b]
          interior_def)
  qed
  with cs show ?thesis by blast
qed


lemma range1_examples: "range1 2 3 = [2]"
  by (simp add: range1.simps)

lemma wf_grid5x5: "wf_grid grid5x5"
  by (simp add: wf_grid_def grid5x5_def Pt_def)

lemma findConnectors_grid5x5:
  "findConnectors grid5x5 =
     Inr [\<lparr>conn_a = \<lparr>c_dir = Dir_Right, c_region = 2\<rparr>,
            conn_b = \<lparr>c_dir = Dir_Left, c_region = 1\<rparr>, loc = Pt 2 2\<rparr>,
          \<lparr>conn_a = \<lparr>c_dir = Dir_Left, c_region = 1\<rparr>,
            conn_b = \<lparr>c_dir = Dir_Right, c_region = 2\<rparr>, loc = Pt 2 2\<rparr>]"
  by (simp add: findConnectors_def Bounds_def Rect_def grid5x5_def Pt_def range1_examples
      connect_cell_def connect_dir_def Dirs_points AddDir_Pt Reverse_def Mul_def At_def
      RegionAt_def index_def Dir_Right_def Dir_Left_def D_def Let_def)

theorem findConnectors_sound_witness:
  "wf_grid grid5x5 \<and>
   findConnectors grid5x5 =
     Inr [\<lparr>conn_a = \<lparr>c_dir = Dir_Right, c_region = 2\<rparr>,
            conn_b = \<lparr>c_dir = Dir_Left, c_region = 1\<rparr>, loc = Pt 2 2\<rparr>,
          \<lparr>conn_a = \<lparr>c_dir = Dir_Left, c_region = 1\<rparr>,
            conn_b = \<lparr>c_dir = Dir_Right, c_region = 2\<rparr>, loc = Pt 2 2\<rparr>] \<and>
   At grid5x5 (Pt 2 2) = Inr Rock \<and>
   RegionAt grid5x5 (AddDir (Pt 2 2) Dir_Right) = Inr 2 \<and>
   RegionAt grid5x5 (AddDir (Pt 2 2) Dir_Left) = Inr 1"
proof -
  let ?c = "\<lparr>conn_a = \<lparr>c_dir = Dir_Right, c_region = 2\<rparr>,
            conn_b = \<lparr>c_dir = Dir_Left, c_region = 1\<rparr>, loc = Pt 2 2\<rparr>"
  from findConnectors_sound [OF wf_grid5x5] obtain cs where
    cs: "findConnectors grid5x5 = Inr cs"
    and p: "\<forall>c\<in>set cs. At grid5x5 (loc c) = Inr Rock \<and>
       RegionAt grid5x5 (AddDir (loc c) (c_dir (conn_a c))) = Inr (c_region (conn_a c)) \<and>
       RegionAt grid5x5 (AddDir (loc c) (c_dir (conn_b c))) = Inr (c_region (conn_b c))"
    by blast
  from cs have "cs = [?c, \<lparr>conn_a = \<lparr>c_dir = Dir_Left, c_region = 1\<rparr>,
            conn_b = \<lparr>c_dir = Dir_Right, c_region = 2\<rparr>, loc = Pt 2 2\<rparr>]"
    by (simp add: findConnectors_grid5x5)
  then have "?c \<in> set cs" by simp
  with p have "At grid5x5 (loc ?c) = Inr Rock \<and>
       RegionAt grid5x5 (AddDir (loc ?c) (c_dir (conn_a ?c))) = Inr (c_region (conn_a ?c)) \<and>
       RegionAt grid5x5 (AddDir (loc ?c) (c_dir (conn_b ?c))) = Inr (c_region (conn_b ?c))"
    by blast
  then have "At grid5x5 (Pt 2 2) = Inr Rock \<and>
     RegionAt grid5x5 (AddDir (Pt 2 2) Dir_Right) = Inr 2 \<and>
     RegionAt grid5x5 (AddDir (Pt 2 2) Dir_Left) = Inr 1"
    by simp
  with wf_grid5x5 findConnectors_grid5x5 show ?thesis by (intro conjI) simp_all
qed

section \<open>Mirror records\<close>

lemma mirror_dir_conns:
  assumes "d \<in> set Dirs" "c \<in> set (dir_conns g p d)"
  shows "mirror c \<in> set (dir_conns g p (Reverse d))"
  using assms(2) Reverse_Dirs(2) [OF assms(1)]
  by (auto simp: dir_conns_member mirror_def)

lemma mirror_cell_conns:
  assumes "c \<in> set (cell_conns g p)"
  shows "mirror c \<in> set (cell_conns g p)"
proof -
  from assms have rock: "mat_at g p = Rock" and d: "c_dir (conn_a c) \<in> set Dirs"
    and dc: "c \<in> set (dir_conns g p (c_dir (conn_a c)))"
    by (simp_all add: cell_conns_member)
  from mirror_dir_conns [OF d dc] Reverse_Dirs(1) [OF d] rock show ?thesis
    by (auto simp: cell_conns_def)
qed

lemma Reverse_each:
  "Reverse Dir_Up = Dir_Down" "Reverse Dir_Down = Dir_Up"
  "Reverse Dir_Right = Dir_Left" "Reverse Dir_Left = Dir_Right"
  by (simp_all add: Reverse_def Mul_def Dir_Up_def Dir_Down_def Dir_Right_def Dir_Left_def
      D_def Pt_def)

lemma length_dir_conns_Reverse:
  "d \<in> set Dirs \<Longrightarrow> length (dir_conns g p (Reverse d)) = length (dir_conns g p d)"
  by (auto simp: dir_conns_def Let_def Reverse_Dirs(2))

lemma length_dir_conns: "length (dir_conns g p d) \<le> 1"
  by (simp add: dir_conns_def Let_def)

lemma length_cell_conns: "length (cell_conns g p) \<in> {0, 2, 4}"
proof (cases "mat_at g p = Rock")
  case True
  define a where "a = length (dir_conns g p Dir_Up)"
  define b where "b = length (dir_conns g p Dir_Right)"
  have u: "length (dir_conns g p Dir_Down) = a"
    using length_dir_conns_Reverse [of Dir_Up g p] by (simp add: Reverse_each Dirs_def a_def)
  have r: "length (dir_conns g p Dir_Left) = b"
    using length_dir_conns_Reverse [of Dir_Right g p] by (simp add: Reverse_each Dirs_def b_def)
  have "a \<le> 1" "b \<le> 1" unfolding a_def b_def by (rule length_dir_conns)+
  then have "(a = 0 \<or> a = 1) \<and> (b = 0 \<or> b = 1)" by arith
  moreover have "length (cell_conns g p) = a + b + a + b"
    using True by (simp add: cell_conns_def Dirs_def u r a_def [symmetric] b_def [symmetric])
  ultimately show ?thesis by auto
next
  case False
  then show ?thesis by (simp add: cell_conns_def)
qed

lemma loc_cell_conns: "c \<in> set (cell_conns g q) \<Longrightarrow> loc c = q"
  by (auto simp: cell_conns_def dir_conns_def Let_def split: if_splits)

lemma filter_loc_cells:
  "distinct qs \<Longrightarrow>
   filter (\<lambda>c. loc c = p) (concat (map (cell_conns g) qs)) =
     (if p \<in> set qs then cell_conns g p else [])"
proof (induction qs)
  case Nil
  then show ?case by simp
next
  case (Cons q qs)
  have "filter (\<lambda>c. loc c = p) (cell_conns g q) = (if q = p then cell_conns g p else [])"
    by (auto simp: filter_empty_conv filter_id_conv dest: loc_cell_conns)
  with Cons show ?case by auto
qed

lemma concat_cells:
  "concat (map (\<lambda>y. concat (map (\<lambda>x. cell_conns g (Pt x y)) xs)) ys) =
   concat (map (cell_conns g) (concat (map (\<lambda>y. map (\<lambda>x. Pt x y) xs) ys)))"
  by (induction ys) (simp_all add: comp_def)

lemma distinct_points:
  "distinct xs \<Longrightarrow> distinct ys \<Longrightarrow> distinct (concat (map (\<lambda>y. map (\<lambda>x. Pt x y) xs) ys))"
proof (induction ys)
  case Nil
  then show ?case by simp
next
  case (Cons y ys)
  have "inj_on (\<lambda>x. Pt x y) (set xs)" by (auto simp: inj_on_def Pt_def)
  then have "distinct (map (\<lambda>x. Pt x y) xs)" using Cons.prems(1) by (simp add: distinct_map)
  moreover have "Pt x y \<notin> set (concat (map (\<lambda>y. map (\<lambda>x. Pt x y) xs) ys))" for x
    using Cons.prems(2) by (auto simp: Pt_def)
  ultimately show ?case using Cons by auto
qed

text \<open>
  C10. On a well-formed grid the list returned by \<open>findConnectors\<close> holds, with every
  record, the record at the same location with the two sides exchanged, and the number of
  records at any one location is 0, 2 or 4.
\<close>

theorem findConnectors_mirror_closed:
  assumes "wf_grid g"
  shows "\<exists>cs. findConnectors g = Inr cs \<and> (\<forall>c\<in>set cs. mirror c \<in> set cs) \<and>
           (\<forall>p. length (filter (\<lambda>c. loc c = p) cs) \<in> {0, 2, 4})"
proof -
  define qs where "qs = concat (map (\<lambda>y. map (\<lambda>x. Pt x y) [2..X (Size g) - 3]) [2..Y (Size g) - 3])"
  define cs where "cs = concat (map (cell_conns g) qs)"
  have cs: "findConnectors g = Inr cs"
    unfolding findConnectors_wf [OF assms] cs_def qs_def concat_cells ..
  have "mirror c \<in> set cs" if "c \<in> set cs" for c
  proof -
    from that have "interior g (loc c)" "c \<in> set (cell_conns g (loc c))"
      by (simp_all add: findConnectors_member [OF assms cs])
    moreover have "loc (mirror c) = loc c" by (simp add: mirror_def)
    ultimately show ?thesis
      using mirror_cell_conns [of c g "loc c"] by (simp add: findConnectors_member [OF assms cs])
  qed
  moreover have "length (filter (\<lambda>c. loc c = p) cs) \<in> {0, 2, 4}" for p
  proof -
    have "distinct qs" unfolding qs_def by (intro distinct_points) simp_all
    then have "filter (\<lambda>c. loc c = p) cs = (if p \<in> set qs then cell_conns g p else [])"
      unfolding cs_def by (rule filter_loc_cells)
    then show ?thesis using length_cell_conns [of g p] by simp
  qed
  ultimately show ?thesis using cs by blast
qed


theorem findConnectors_mirror_closed_witness:
  "wf_grid grid5x5 \<and>
   findConnectors grid5x5 =
     Inr [\<lparr>conn_a = \<lparr>c_dir = Dir_Right, c_region = 2\<rparr>,
            conn_b = \<lparr>c_dir = Dir_Left, c_region = 1\<rparr>, loc = Pt 2 2\<rparr>,
          \<lparr>conn_a = \<lparr>c_dir = Dir_Left, c_region = 1\<rparr>,
            conn_b = \<lparr>c_dir = Dir_Right, c_region = 2\<rparr>, loc = Pt 2 2\<rparr>] \<and>
   mirror \<lparr>conn_a = \<lparr>c_dir = Dir_Right, c_region = 2\<rparr>,
            conn_b = \<lparr>c_dir = Dir_Left, c_region = 1\<rparr>, loc = Pt 2 2\<rparr> \<in>
     set [\<lparr>conn_a = \<lparr>c_dir = Dir_Right, c_region = 2\<rparr>,
            conn_b = \<lparr>c_dir = Dir_Left, c_region = 1\<rparr>, loc = Pt 2 2\<rparr>,
          \<lparr>conn_a = \<lparr>c_dir = Dir_Left, c_region = 1\<rparr>,
            conn_b = \<lparr>c_dir = Dir_Right, c_region = 2\<rparr>, loc = Pt 2 2\<rparr>] \<and>
   length (filter (\<lambda>c. loc c = Pt 2 2)
     [\<lparr>conn_a = \<lparr>c_dir = Dir_Right, c_region = 2\<rparr>,
        conn_b = \<lparr>c_dir = Dir_Left, c_region = 1\<rparr>, loc = Pt 2 2\<rparr>,
      \<lparr>conn_a = \<lparr>c_dir = Dir_Left, c_region = 1\<rparr>,
        conn_b = \<lparr>c_dir = Dir_Right, c_region = 2\<rparr>, loc = Pt 2 2\<rparr>]) \<in> {0, 2, 4}"
proof -
  let ?c = "\<lparr>conn_a = \<lparr>c_dir = Dir_Right, c_region = 2\<rparr>,
            conn_b = \<lparr>c_dir = Dir_Left, c_region = 1\<rparr>, loc = Pt 2 2\<rparr>"
  let ?cs = "[?c, \<lparr>conn_a = \<lparr>c_dir = Dir_Left, c_region = 1\<rparr>,
            conn_b = \<lparr>c_dir = Dir_Right, c_region = 2\<rparr>, loc = Pt 2 2\<rparr>]"
  from findConnectors_mirror_closed [OF wf_grid5x5] obtain cs where
    cs: "findConnectors grid5x5 = Inr cs" and m: "\<forall>c\<in>set cs. mirror c \<in> set cs"
    and n: "\<forall>p. length (filter (\<lambda>c. loc c = p) cs) \<in> {0, 2, 4}"
    by blast
  from cs have eq: "cs = ?cs" by (simp add: findConnectors_grid5x5)
  then have "?c \<in> set cs" by simp
  with m have "mirror ?c \<in> set cs" by blast
  moreover from n have "length (filter (\<lambda>c. loc c = Pt 2 2) cs) \<in> {0, 2, 4}" by blast
  ultimately show ?thesis
    using wf_grid5x5 findConnectors_grid5x5 unfolding eq by (intro conjI)
qed

section \<open>Rooms\<close>

text \<open>
  Width and height of a rectangle, as \<^verbatim>\<open>Dx\<close> and \<^verbatim>\<open>Dy\<close> of Go's \<^verbatim>\<open>image\<close> package
  compute them.
\<close>

definition Dx :: "rectangle \<Rightarrow> int" where
  "Dx r = wrap64 (X (Max_r r) - X (Min_r r))"

definition Dy :: "rectangle \<Rightarrow> int" where
  "Dy r = wrap64 (Y (Max_r r) - Y (Min_r r))"

lemma even_wrap64 [simp]: "even (wrap64 i) \<longleftrightarrow> even i"
proof -
  have "even ((i + 2 ^ 63) mod 2 ^ 64) \<longleftrightarrow> even (i + 2 ^ 63)"
    by (rule dvd_mod_iff) simp
  then show ?thesis by (simp add: wrap64_def)
qed

lemma quo_2_pos: "2 \<le> a \<Longrightarrow> 0 < quo a 2"
  by (simp add: quo_def sgn_if pos_imp_zdiv_pos_iff)

lemma rect_In_points: "rect_In r s \<longleftrightarrow> (\<forall>p. pt_In p r \<longrightarrow> pt_In p s)"
proof (cases "Empty r")
  case True
  then show ?thesis by (auto simp: rect_In_def Empty_def pt_In_def)
next
  case False
  have "rect_In r s" if a: "\<forall>p. pt_In p r \<longrightarrow> pt_In p s"
  proof -
    from False have "pt_In (Min_r r) r" "pt_In \<lparr>X = X (Max_r r) - 1, Y = Y (Max_r r) - 1\<rparr> r"
      by (auto simp: Empty_def pt_In_def)
    with a have "pt_In (Min_r r) s" "pt_In \<lparr>X = X (Max_r r) - 1, Y = Y (Max_r r) - 1\<rparr> s"
      by blast+
    then show ?thesis by (auto simp: rect_In_def pt_In_def)
  qed
  moreover have "\<forall>p. pt_In p r \<longrightarrow> pt_In p s" if "rect_In r s"
    using that False by (auto simp: rect_In_def pt_In_def)
  ultimately show ?thesis by blast
qed

lemma Overlaps_sym: "Overlaps r s \<longleftrightarrow> Overlaps s r"
  by (auto simp: Overlaps_def)

lemma drawRoom_total:
  assumes "2 \<le> X (Max_r clip)" "2 \<le> Y (Max_r clip)" "2 \<le> X (Max_p rp)" "2 \<le> Y (Max_p rp)"
  shows "\<exists>x y w h rs'. drawRoom clip rp rs = Inr ((x, y, w, h), rs') \<and>
           (even w \<longleftrightarrow> even (X (Min_p rp))) \<and> (even h \<longleftrightarrow> even (Y (Min_p rp)))"
  using assms by (simp add: drawRoom_def Intn_def quo_2_pos Let_def not_le)

lemma Rect_parity:
  "even (Dx (Rect x y (wrap64 (x + w)) (wrap64 (y + h)))) \<longleftrightarrow> even w"
  "even (Dy (Rect x y (wrap64 (x + w)) (wrap64 (y + h)))) \<longleftrightarrow> even h"
  by (auto simp: Dx_def Dy_def Rect_def Pt_def)

text \<open>
  What holds of the list of rooms throughout the loop: every room after the first is inside
  the clip rectangle and has the parities of the minimum size, and no room overlaps a room
  further on in the list.
\<close>

definition rooms_inv :: "rectangle \<Rightarrow> RoomParams \<Rightarrow> rectangle list \<Rightarrow> bool" where
  "rooms_inv clip rp rooms \<longleftrightarrow>
     rooms \<noteq> [] \<and>
     (\<forall>r\<in>set (tl rooms). rect_In r clip \<and>
        (even (Dx r) \<longleftrightarrow> even (X (Min_p rp))) \<and> (even (Dy r) \<longleftrightarrow> even (Y (Min_p rp)))) \<and>
     sorted_wrt (\<lambda>r s. \<not> Overlaps r s) rooms"

lemma tryRooms_ok:
  assumes "2 \<le> X (Max_r clip)" "2 \<le> Y (Max_r clip)" "2 \<le> X (Max_p rp)" "2 \<le> Y (Max_p rp)"
  shows "rooms_inv clip rp rooms \<Longrightarrow>
    \<exists>rooms' rs'. tryRooms n clip rp rooms rs = Inr (rooms', rs') \<and> rooms_inv clip rp rooms'"
proof (induction n arbitrary: rooms rs)
  case 0
  then show ?case by simp
next
  case (Suc n)
  from drawRoom_total [OF assms, of rs] obtain x y w h rs1 where
    d: "drawRoom clip rp rs = Inr ((x, y, w, h), rs1)"
    and pw: "even w \<longleftrightarrow> even (X (Min_p rp))" and ph: "even h \<longleftrightarrow> even (Y (Min_p rp))"
    by blast
  define room where "room = Rect x y (wrap64 (x + w)) (wrap64 (y + h))"
  have par: "even (Dx room) \<longleftrightarrow> even (X (Min_p rp))" "even (Dy room) \<longleftrightarrow> even (Y (Min_p rp))"
    using pw ph by (simp_all add: room_def Rect_parity)
  show ?case
  proof (cases "rect_In room clip \<and> \<not> list_ex (\<lambda>old. Overlaps room old) rooms")
    case True
    then have "\<forall>old\<in>set rooms. \<not> Overlaps old room"
      by (auto simp: list_ex_iff Overlaps_sym [of room])
    then have "rooms_inv clip rp (rooms @ [room])"
      using Suc.prems True par by (cases rooms) (auto simp: rooms_inv_def sorted_wrt_append)
    from Suc.IH [OF this, of rs1] True d show ?thesis
      by (simp add: room_def [symmetric])
  next
    case False
    with Suc.IH [OF Suc.prems, of rs1] d show ?thesis
      by (auto simp: room_def [symmetric])
  qed
qed

text \<open>
  C4, as amended. When the four arguments of \<open>Intn\<close> are positive, \<open>createRooms\<close>
  returns for every random source, and every rectangle of the list it returns other than
  the first lies inside the clip rectangle, has a width of the parity of the minimum width
  and a height of the parity of the minimum height (odd ones for an odd minimum, as in
  \<open>ROOM_PARAMS\<close>), and overlaps no other rectangle of the list.
\<close>

theorem createRooms_rooms_valid:
  assumes "2 \<le> X (Max_r clip)" "2 \<le> Y (Max_r clip)" "2 \<le> X (Max_p rp)" "2 \<le> Y (Max_p rp)"
  shows "\<exists>rooms rs'. createRooms clip rp rs = Inr (rooms, rs') \<and>
    (\<forall>i. 0 < i \<and> i < length rooms \<longrightarrow>
       rect_In (rooms ! i) clip \<and> (\<forall>p. pt_In p (rooms ! i) \<longrightarrow> pt_In p clip) \<and>
       (odd (Dx (rooms ! i)) \<longleftrightarrow> odd (X (Min_p rp))) \<and>
       (odd (Dy (rooms ! i)) \<longleftrightarrow> odd (Y (Min_p rp))) \<and>
       (\<forall>j. j < length rooms \<and> j \<noteq> i \<longrightarrow> \<not> Overlaps (rooms ! i) (rooms ! j)))"
proof -
  have "rooms_inv clip rp [\<lparr>Min_r = Pt 0 0, Max_r = Pt 0 0\<rparr>]"
    by (simp add: rooms_inv_def)
  from tryRooms_ok [OF assms this, of ROOM_TRIES rs] obtain rooms rs' where
    r: "createRooms clip rp rs = Inr (rooms, rs')" and inv: "rooms_inv clip rp rooms"
    by (auto simp: createRooms_def)
  have "rect_In (rooms ! i) clip \<and> (\<forall>p. pt_In p (rooms ! i) \<longrightarrow> pt_In p clip) \<and>
       (odd (Dx (rooms ! i)) \<longleftrightarrow> odd (X (Min_p rp))) \<and>
       (odd (Dy (rooms ! i)) \<longleftrightarrow> odd (Y (Min_p rp))) \<and>
       (\<forall>j. j < length rooms \<and> j \<noteq> i \<longrightarrow> \<not> Overlaps (rooms ! i) (rooms ! j))"
    if i: "0 < i" "i < length rooms" for i
  proof -
    from i have "rooms ! i = tl rooms ! (i - 1)" "i - 1 < length (tl rooms)"
      by (cases rooms; cases i; simp)+
    then have "rooms ! i \<in> set (tl rooms)" by (metis nth_mem)
    with inv have good: "rect_In (rooms ! i) clip"
      "even (Dx (rooms ! i)) \<longleftrightarrow> even (X (Min_p rp))"
      "even (Dy (rooms ! i)) \<longleftrightarrow> even (Y (Min_p rp))"
      by (simp_all add: rooms_inv_def)
    from inv have sw: "sorted_wrt (\<lambda>r s. \<not> Overlaps r s) rooms" by (simp add: rooms_inv_def)
    have "\<not> Overlaps (rooms ! i) (rooms ! j)" if j: "j < length rooms" "j \<noteq> i" for j
    proof (cases "i < j")
      case True
      with sw j show ?thesis by (simp add: sorted_wrt_iff_nth_less)
    next
      case False
      with j have "j < i" by simp
      with sw i have "\<not> Overlaps (rooms ! j) (rooms ! i)" by (simp add: sorted_wrt_iff_nth_less)
      then show ?thesis by (simp add: Overlaps_sym)
    qed
    with good show ?thesis by (simp add: rect_In_points [symmetric])
  qed
  with r show ?thesis by blast
qed


text \<open>Evaluation of one try and of ten tries on constant random sources.\<close>

lemma quo_examples: "quo 61 2 = 30" "quo 15 2 = 7"
  by (simp_all add: quo_def)

lemma tryRooms_step:
  "0 < n \<Longrightarrow> tryRooms n clip rp rooms rs =
     (case drawRoom clip rp rs of
        Inl e \<Rightarrow> Inl e
      | Inr ((x, y, width, height), rs') \<Rightarrow>
          (let room = Rect x y (wrap64 (x + width)) (wrap64 (y + height)) in
           if \<not> rect_In room clip then tryRooms (n - 1) clip rp rooms rs'
           else if list_ex (\<lambda>old. Overlaps room old) rooms then tryRooms (n - 1) clip rp rooms rs'
           else tryRooms (n - 1) clip rp (rooms @ [room]) rs'))"
  by (cases n; cases "drawRoom clip rp rs") (auto simp: Let_def split: prod.splits)

lemma drawRoom_sixes:
  "drawRoom (Rect 0 0 IMG_SIZE IMG_SIZE) ROOM_PARAMS (always 6) = Inr ((13, 13, 17, 17), always 6)"
  by (simp add: drawRoom_def Rect_def IMG_SIZE_def ROOM_PARAMS_def Pt_def Intn_always quo_examples)

lemma createRooms_sixes:
  "createRooms (Rect 0 0 IMG_SIZE IMG_SIZE) ROOM_PARAMS (always 6) =
     Inr ([\<lparr>Min_r = Pt 0 0, Max_r = Pt 0 0\<rparr>, \<lparr>Min_r = Pt 13 13, Max_r = Pt 30 30\<rparr>], always 6)"
  by (simp add: createRooms_def ROOM_TRIES_def tryRooms_step drawRoom_sixes Let_def)
    (simp add: Rect_def IMG_SIZE_def Pt_def rect_In_def Empty_def Overlaps_def)

lemma drawRoom_even_min:
  "drawRoom (Rect 0 0 IMG_SIZE IMG_SIZE) \<lparr>Min_p = Pt 4 4, Max_p = Pt 15 15\<rparr> (always 0) =
     Inr ((1, 1, 4, 4), always 0)"
  by (simp add: drawRoom_def Rect_def IMG_SIZE_def Pt_def Intn_always quo_examples)

lemma createRooms_even_min:
  "createRooms (Rect 0 0 IMG_SIZE IMG_SIZE) \<lparr>Min_p = Pt 4 4, Max_p = Pt 15 15\<rparr> (always 0) =
     Inr ([\<lparr>Min_r = Pt 0 0, Max_r = Pt 0 0\<rparr>, \<lparr>Min_r = Pt 1 1, Max_r = Pt 5 5\<rparr>], always 0)"
  by (simp add: createRooms_def ROOM_TRIES_def tryRooms_step drawRoom_even_min Let_def)
    (simp add: Rect_def IMG_SIZE_def Pt_def rect_In_def Empty_def Overlaps_def)

theorem createRooms_rooms_valid_witness:
  "2 \<le> X (Max_r (Rect 0 0 IMG_SIZE IMG_SIZE)) \<and> 2 \<le> Y (Max_r (Rect 0 0 IMG_SIZE IMG_SIZE)) \<and>
   2 \<le> X (Max_p ROOM_PARAMS) \<and> 2 \<le> Y (Max_p ROOM_PARAMS) \<and>
   (\<exists>rooms rs'. createRooms (Rect 0 0 IMG_SIZE IMG_SIZE) ROOM_PARAMS (always 6) = Inr (rooms, rs') \<and>
      length rooms = 2 \<and> rect_In (rooms ! 1) (Rect 0 0 IMG_SIZE IMG_SIZE) \<and>
      odd (Dx (rooms ! 1)) \<and> odd (Dy (rooms ! 1)) \<and> \<not> Overlaps (rooms ! 1) (rooms ! 0))"
proof -
  let ?clip = "Rect 0 0 IMG_SIZE IMG_SIZE"
  have h: "2 \<le> X (Max_r ?clip)" "2 \<le> Y (Max_r ?clip)"
    "2 \<le> X (Max_p ROOM_PARAMS)" "2 \<le> Y (Max_p ROOM_PARAMS)"
    by (simp_all add: Rect_def IMG_SIZE_def ROOM_PARAMS_def Pt_def)
  have o: "odd (X (Min_p ROOM_PARAMS))" "odd (Y (Min_p ROOM_PARAMS))"
    by (simp_all add: ROOM_PARAMS_def Pt_def)
  from createRooms_rooms_valid [OF h, of "always 6"] obtain rooms rs' where
    r: "createRooms ?clip ROOM_PARAMS (always 6) = Inr (rooms, rs')"
    and v: "\<forall>i. 0 < i \<and> i < length rooms \<longrightarrow>
       rect_In (rooms ! i) ?clip \<and> (\<forall>p. pt_In p (rooms ! i) \<longrightarrow> pt_In p ?clip) \<and>
       (odd (Dx (rooms ! i)) \<longleftrightarrow> odd (X (Min_p ROOM_PARAMS))) \<and>
       (odd (Dy (rooms ! i)) \<longleftrightarrow> odd (Y (Min_p ROOM_PARAMS))) \<and>
       (\<forall>j. j < length rooms \<and> j \<noteq> i \<longrightarrow> \<not> Overlaps (rooms ! i) (rooms ! j))"
    by blast
  from r have len: "length rooms = 2" by (auto simp: createRooms_sixes)
  with v have "rect_In (rooms ! 1) ?clip \<and>
       (odd (Dx (rooms ! 1)) \<longleftrightarrow> odd (X (Min_p ROOM_PARAMS))) \<and>
       (odd (Dy (rooms ! 1)) \<longleftrightarrow> odd (Y (Min_p ROOM_PARAMS))) \<and>
       (\<forall>j. j < length rooms \<and> j \<noteq> 1 \<longrightarrow> \<not> Overlaps (rooms ! 1) (rooms ! j))"
    by simp
  with o len have "rect_In (rooms ! 1) ?clip \<and> odd (Dx (rooms ! 1)) \<and> odd (Dy (rooms ! 1)) \<and>
      \<not> Overlaps (rooms ! 1) (rooms ! 0)"
    by simp
  with r len h show ?thesis by blast
qed

text \<open>
  C4 as stated fails. The list that \<open>createRooms\<close> returns always starts with the zero
  rectangle the list is created with, whose width and height are 0; and with a minimum
  size of 4 by 4 the room accepted on the first try is 4 wide and 4 high.
\<close>

theorem createRooms_returns_even_sized_rectangles:
  "createRooms (Rect 0 0 IMG_SIZE IMG_SIZE) ROOM_PARAMS (always 6) =
     Inr ([\<lparr>Min_r = Pt 0 0, Max_r = Pt 0 0\<rparr>, \<lparr>Min_r = Pt 13 13, Max_r = Pt 30 30\<rparr>], always 6) \<and>
   Dx \<lparr>Min_r = Pt 0 0, Max_r = Pt 0 0\<rparr> = 0 \<and> Dy \<lparr>Min_r = Pt 0 0, Max_r = Pt 0 0\<rparr> = 0 \<and>
   createRooms (Rect 0 0 IMG_SIZE IMG_SIZE) \<lparr>Min_p = Pt 4 4, Max_p = Pt 15 15\<rparr> (always 0) =
     Inr ([\<lparr>Min_r = Pt 0 0, Max_r = Pt 0 0\<rparr>, \<lparr>Min_r = Pt 1 1, Max_r = Pt 5 5\<rparr>], always 0) \<and>
   Dx \<lparr>Min_r = Pt 1 1, Max_r = Pt 5 5\<rparr> = 4 \<and> Dy \<lparr>Min_r = Pt 1 1, Max_r = Pt 5 5\<rparr> = 4"
  by (simp add: createRooms_sixes createRooms_even_min)
    (simp add: Dx_def Dy_def Pt_def)

text \<open>
  C3. Every drawn width should lie between the minimum and the maximum width of the
  parameters, and every drawn height between the minimum and the maximum height. With the
  parameters of the program, minimum 5 and maximum 15, a try whose draws all return 6
  draws a width and a height of 17, and \<open>createRooms\<close> accepts the room of 17 by 17 cells.
\<close>

theorem drawn_size_exceeds_maximum:
  "X (Min_p ROOM_PARAMS) = 5 \<and> X (Max_p ROOM_PARAMS) = 15 \<and>
   Y (Min_p ROOM_PARAMS) = 5 \<and> Y (Max_p ROOM_PARAMS) = 15 \<and>
   drawRoom (Rect 0 0 IMG_SIZE IMG_SIZE) ROOM_PARAMS (always 6) = Inr ((13, 13, 17, 17), always 6) \<and>
   createRooms (Rect 0 0 IMG_SIZE IMG_SIZE) ROOM_PARAMS (always 6) =
     Inr ([\<lparr>Min_r = Pt 0 0, Max_r = Pt 0 0\<rparr>, \<lparr>Min_r = Pt 13 13, Max_r = Pt 30 30\<rparr>], always 6) \<and>
   Dx \<lparr>Min_r = Pt 13 13, Max_r = Pt 30 30\<rparr> = 17 \<and> Dy \<lparr>Min_r = Pt 13 13, Max_r = Pt 30 30\<rparr> = 17"
  by (simp add: createRooms_sixes drawRoom_sixes)
    (simp add: ROOM_PARAMS_def Dx_def Dy_def Pt_def)

end
